theory Spec2Isabelle
  imports Complex_Main "HOL-Library.AList"
begin

section \<open>Constants of server.py\<close>

definition SCREEN_WIDTH :: int where "SCREEN_WIDTH = 600"
definition SCREEN_HEIGHT :: int where "SCREEN_HEIGHT = 400"
definition PLAYER_SIZE :: int where "PLAYER_SIZE = 30"
definition COIN_SIZE :: int where "COIN_SIZE = 20"
definition PLAYER_SPEED :: int where "PLAYER_SPEED = 5"
definition COIN_SPAWN_INTERVAL :: real where "COIN_SPAWN_INTERVAL = 25 / 10"
definition MIN_COINS :: int where "MIN_COINS = 3"
definition MAX_COINS :: int where "MAX_COINS = 5"
definition COLLISION_DISTANCE :: real where
  "COLLISION_DISTANCE = (of_int PLAYER_SIZE + of_int COIN_SIZE) / 2"
definition SPRINT_WIN_SCORE :: int where "SPRINT_WIN_SCORE = 10"

section \<open>Entity model\<close>

text \<open>
  Class \<open>Player\<close>. Python floats are modelled as reals (exact arithmetic), Python ints as
  \<open>int\<close>. The \<open>websocket\<close> attribute is the connection handle; it carries no game state
  and is left out. The player's id is \<open>str(id(websocket))\<close>, here any string.
\<close>

record Player =
  p_id :: string
  p_name :: string
  p_x :: real
  p_y :: real
  p_score :: int
  p_color :: "int list"
  velocity_x :: real
  velocity_y :: real

text \<open>\<open>Player.random_color\<close>: \<open>random.choice(colors)\<close>, the drawn index is the argument.\<close>

definition random_color :: "nat \<Rightarrow> int list" where
  "random_color k =
     [[255, 100, 100], [100, 100, 255], [100, 255, 100], [255, 255, 100], [255, 100, 255]] ! k"

text \<open>
  \<open>Player.__init__\<close>. The two \<open>random.randint\<close> draws for the position and the index
  drawn by \<open>random.choice\<close> are arguments; an empty (or absent) colour is falsy in Python
  and takes the random colour.
\<close>

definition Player_init :: "string \<Rightarrow> string \<Rightarrow> int list \<Rightarrow> int \<Rightarrow> int \<Rightarrow> nat \<Rightarrow> Player" where
  "Player_init player_id name color rx ry rc =
     \<lparr> p_id = player_id, p_name = name, p_x = of_int rx, p_y = of_int ry, p_score = 0,
       p_color = (if color \<noteq> [] then color else random_color rc),
       velocity_x = 0, velocity_y = 0 \<rparr>"

text \<open>
  \<open>Player.update_position\<close>. The returned flag (position changed) is only used for
  logging, so the model returns the updated player.
\<close>

definition update_position :: "Player \<Rightarrow> Player" where
  "update_position p =
     (let new_x = p_x p + velocity_x p * of_int PLAYER_SPEED;
          new_y = p_y p + velocity_y p * of_int PLAYER_SPEED;
          new_x' = max (of_int PLAYER_SIZE / 2) (min (of_int SCREEN_WIDTH - of_int PLAYER_SIZE / 2) new_x);
          new_y' = max (of_int PLAYER_SIZE / 2) (min (of_int SCREEN_HEIGHT - of_int PLAYER_SIZE / 2) new_y)
      in p\<lparr>p_x := new_x', p_y := new_y'\<rparr>)"

text \<open>Class \<open>Coin\<close>; the two \<open>random.randint\<close> draws of its constructor are arguments.\<close>

record Coin =
  c_id :: int
  c_x :: int
  c_y :: int

definition Coin_init :: "int \<Rightarrow> int \<times> int \<Rightarrow> Coin" where
  "Coin_init coin_id r = \<lparr> c_id = coin_id, c_x = fst r, c_y = snd r \<rparr>"

section \<open>The server state\<close>

text \<open>
  Class \<open>GameServer\<close>. Python dictionaries keep insertion order, which the collision
  loop depends on, so both dictionaries are association lists: assignment to a key is
  \<open>AList.update\<close> (in place when the key exists, appended otherwise) and \<open>del\<close> is
  \<open>AList.delete\<close>.
\<close>

record GameServer =
  players :: "(string \<times> Player) list"
  coins :: "(int \<times> Coin) list"
  next_coin_id :: int
  game_started :: bool
  game_mode :: string
  winner :: "string option"
  last_coin_spawn :: real
  player_count :: int

text \<open>\<open>GameServer.__init__\<close>; the argument is the value of \<open>time.time()\<close>.\<close>

definition GameServer_init :: "real \<Rightarrow> GameServer" where
  "GameServer_init now =
     \<lparr> players = [], coins = [], next_coin_id = 0, game_started = False,
       game_mode = ''endless'', winner = None, last_coin_spawn = now, player_count = 0 \<rparr>"

subsection \<open>Wire messages\<close>

datatype json =
    JStr string
  | JInt int
  | JNum real
  | JBool bool
  | JList "json list"
  | JObj "(string \<times> json) list"

text \<open>\<open>Player.to_dict\<close>.\<close>

definition to_dict :: "Player \<Rightarrow> json" where
  "to_dict p = JObj
     [(''id'', JStr (p_id p)), (''name'', JStr (p_name p)), (''x'', JNum (p_x p)),
      (''y'', JNum (p_y p)), (''score'', JInt (p_score p)),
      (''color'', JList (map JInt (p_color p)))]"

text \<open>The welcome message built in \<open>handle_client\<close> (lines 123-127).\<close>

definition welcome_message :: "string \<Rightarrow> Player \<Rightarrow> (string \<times> json) list" where
  "welcome_message player_id player =
     [(''type'', JStr ''welcome''), (''player_id'', JStr player_id),
      (''player_data'', to_dict player)]"

text \<open>
  What the client reads from a welcome message (client.py, lines 133-136):
  \<open>data['player_id']\<close>, \<open>data.get('simulated_latency', 200)\<close> and \<open>data['player_data']\<close>.
\<close>

definition client_simulated_latency :: "(string \<times> json) list \<Rightarrow> json" where
  "client_simulated_latency data =
     (case map_of data ''simulated_latency'' of None \<Rightarrow> JInt 200 | Some v \<Rightarrow> v)"

subsection \<open>Connection handling\<close>

text \<open>
  \<open>handle_client\<close> up to its receive loop (lines 106-131): name and colour by join order,
  the player created and stored, the welcome message sent. The lobby notice is output
  only. The result is the new state and the welcome message.
\<close>

definition handle_client_connect ::
  "string \<Rightarrow> int \<Rightarrow> int \<Rightarrow> nat \<Rightarrow> GameServer \<Rightarrow> GameServer \<times> (string \<times> json) list" where
  "handle_client_connect player_id rx ry rc s =
     (let player_name = (if player_count s = 0 then ''Alice'' else ''Bob'');
          player_color = (if player_count s = 0 then [255, 100, 100] else [100, 100, 255]);
          s1 = s\<lparr>player_count := player_count s + 1\<rparr>;
          player = Player_init player_id player_name player_color rx ry rc;
          s2 = s1\<lparr>players := AList.update player_id player (players s1)\<rparr>
      in (s2, welcome_message player_id player))"

text \<open>The \<open>finally\<close> block of \<open>handle_client\<close> (lines 140-145).\<close>

definition handle_client_disconnect :: "string \<Rightarrow> GameServer \<Rightarrow> GameServer" where
  "handle_client_disconnect player_id s =
     (if player_id \<in> set (map fst (players s))
      then s\<lparr>players := AList.delete player_id (players s),
             player_count := player_count s - 1\<rparr>
      else s)"

subsection \<open>Coins\<close>

text \<open>\<open>spawn_coin\<close>; the argument is the pair of draws of the coin's position.\<close>

definition spawn_coin :: "int \<times> int \<Rightarrow> GameServer \<Rightarrow> GameServer" where
  "spawn_coin r s =
     s\<lparr>coins := AList.update (next_coin_id s) (Coin_init (next_coin_id s) r) (coins s),
       next_coin_id := next_coin_id s + 1\<rparr>"

text \<open>
  \<open>start_game\<close>. The list holds the position draws of the coins spawned; its length is
  the value of \<open>random.randint(MIN_COINS, MAX_COINS)\<close>.
\<close>

definition start_game :: "string \<Rightarrow> (int \<times> int) list \<Rightarrow> GameServer \<Rightarrow> GameServer" where
  "start_game mode draws s =
     fold spawn_coin draws (s\<lparr>game_mode := mode, game_started := True, winner := None\<rparr>)"

subsection \<open>Client messages\<close>

text \<open>
  A decoded client message: \<open>input\<close> with its optional \<open>dx\<close> and \<open>dy\<close>, \<open>start_game\<close>
  with its optional mode, and everything else (an unknown type, or a payload that does
  not decode), which \<open>handle_message\<close> drops.
\<close>

datatype message =
    Input "real option" "real option"
  | StartGame "string option"
  | Other

definition set_velocity :: "real \<Rightarrow> real \<Rightarrow> Player \<Rightarrow> Player" where
  "set_velocity dx dy p = p\<lparr>velocity_x := dx, velocity_y := dy\<rparr>"

fun handle_message :: "string \<Rightarrow> message \<Rightarrow> (int \<times> int) list \<Rightarrow> GameServer \<Rightarrow> GameServer" where
  "handle_message player_id (Input dx dy) draws s =
     s\<lparr>players := AList.map_entry player_id
          (set_velocity (case dx of None \<Rightarrow> 0 | Some v \<Rightarrow> v) (case dy of None \<Rightarrow> 0 | Some v \<Rightarrow> v))
          (players s)\<rparr>"
| "handle_message player_id (StartGame mode) draws s =
     (if \<not> game_started s \<and> length (players s) \<ge> 2
      then start_game (case mode of None \<Rightarrow> ''endless'' | Some m \<Rightarrow> m) draws s
      else s)"
| "handle_message player_id Other draws s = s"

section \<open>Collision and scoring\<close>

definition distance :: "Player \<Rightarrow> Coin \<Rightarrow> real" where
  "distance player coin =
     (let dx = p_x player - of_int (c_x coin);
          dy = p_y player - of_int (c_y coin)
      in sqrt (dx * dx + dy * dy))"

text \<open>
  The variables of one collision pass: \<open>coins_to_remove\<close>, the winner field, and a log
  of the pickups in the order they happen (coin id, player id, the player's score after
  the increment), one entry where the source prints its collision report.
\<close>

record pass_acc =
  coins_to_remove :: "int list"
  acc_winner :: "string option"
  pickups :: "(int \<times> string \<times> int) list"

text \<open>The inner loop of \<open>check_collisions\<close> over the players, for one coin.\<close>

fun players_loop ::
  "string \<Rightarrow> int \<Rightarrow> Coin \<Rightarrow> (string \<times> Player) list \<Rightarrow> pass_acc
     \<Rightarrow> (string \<times> Player) list \<times> pass_acc" where
  "players_loop mode coin_id coin [] acc = ([], acc)"
| "players_loop mode coin_id coin ((player_id, player) # rest) acc =
     (if distance player coin < COLLISION_DISTANCE
      then
        (let player' = player\<lparr>p_score := p_score player + 1\<rparr>;
             acc1 = acc\<lparr>coins_to_remove := coins_to_remove acc @ [coin_id],
                        pickups := pickups acc @ [(coin_id, player_id, p_score player')]\<rparr>;
             acc2 = (if mode = ''sprint'' \<and> p_score player' \<ge> SPRINT_WIN_SCORE
                     then acc1\<lparr>acc_winner := Some player_id\<rparr> else acc1)
         in ((player_id, player') # rest, acc2))
      else
        (let (rest', acc') = players_loop mode coin_id coin rest acc
         in ((player_id, player) # rest', acc')))"

text \<open>The outer loop of \<open>check_collisions\<close> over the coins.\<close>

fun coins_loop ::
  "string \<Rightarrow> (int \<times> Coin) list \<Rightarrow> (string \<times> Player) list \<Rightarrow> pass_acc
     \<Rightarrow> (string \<times> Player) list \<times> pass_acc" where
  "coins_loop mode [] ps acc = (ps, acc)"
| "coins_loop mode ((coin_id, coin) # cs) ps acc =
     (let (ps', acc') = players_loop mode coin_id coin ps acc
      in coins_loop mode cs ps' acc')"

text \<open>The removal loop at the end of \<open>check_collisions\<close>.\<close>

fun remove_coins :: "int list \<Rightarrow> (int \<times> Coin) list \<Rightarrow> (int \<times> Coin) list" where
  "remove_coins [] cs = cs"
| "remove_coins (coin_id # r) cs =
     remove_coins r (if coin_id \<in> set (map fst cs) then AList.delete coin_id cs else cs)"

definition collision_pass :: "GameServer \<Rightarrow> (string \<times> Player) list \<times> pass_acc" where
  "collision_pass s =
     coins_loop (game_mode s) (coins s) (players s)
       \<lparr>coins_to_remove = [], acc_winner = winner s, pickups = []\<rparr>"

definition check_collisions :: "GameServer \<Rightarrow> GameServer" where
  "check_collisions s =
     (let (ps, acc) = collision_pass s
      in s\<lparr>players := ps, winner := acc_winner acc,
           coins := remove_coins (coins_to_remove acc) (coins s)\<rparr>)"

section \<open>The game loop\<close>

datatype error = KeyError

text \<open>Coin population maintenance (lines 261-269).\<close>

definition spawn_if_room :: "int \<times> int \<Rightarrow> GameServer \<Rightarrow> GameServer" where
  "spawn_if_room r s = (if int (length (coins s)) < MAX_COINS then spawn_coin r s else s)"

definition spawn_phase :: "real \<Rightarrow> (int \<times> int) list \<Rightarrow> GameServer \<Rightarrow> GameServer" where
  "spawn_phase current_time draws s =
     (if current_time - last_coin_spawn s > COIN_SPAWN_INTERVAL
      then (if int (length (coins s)) < MAX_COINS then fold spawn_if_room draws s else s)
             \<lparr>last_coin_spawn := current_time\<rparr>
      else s)"

text \<open>The reset after a game over (lines 283-288).\<close>

definition zero_score :: "Player \<Rightarrow> Player" where
  "zero_score p = p\<lparr>p_score := 0\<rparr>"

definition game_over_reset :: "GameServer \<Rightarrow> GameServer" where
  "game_over_reset s =
     s\<lparr>game_started := False, winner := None, coins := [],
       players := map (\<lambda>(k, p). (k, zero_score p)) (players s)\<rparr>"

text \<open>Python truthiness of \<open>self.winner\<close>: \<open>None\<close> and the empty string are falsy.\<close>

definition truthy :: "string option \<Rightarrow> bool" where
  "truthy w = (case w of None \<Rightarrow> False | Some v \<Rightarrow> v \<noteq> [])"

text \<open>The position update of all players (lines 249-250).\<close>

definition move_players :: "GameServer \<Rightarrow> GameServer" where
  "move_players s = s\<lparr>players := map (\<lambda>(k, p). (k, update_position p)) (players s)\<rparr>"

text \<open>The state of one iteration of \<open>game_loop\<close> just before the winner check.\<close>

definition simulate :: "real \<Rightarrow> (int \<times> int) list \<Rightarrow> GameServer \<Rightarrow> GameServer" where
  "simulate current_time draws s =
     spawn_phase current_time draws (check_collisions (move_players s))"

text \<open>
  The winner check at the end of an iteration (lines 275-288). The lookup
  \<open>self.players[self.winner]\<close> raises KeyError when the winner is not a player.
\<close>

definition winner_check :: "GameServer \<Rightarrow> error + GameServer" where
  "winner_check s =
     (if truthy (winner s)
      then (case map_of (players s) (the (winner s)) of
              None \<Rightarrow> Inl KeyError
            | Some winner_player \<Rightarrow> Inr (game_over_reset s))
      else Inr s)"

text \<open>
  One iteration of \<open>game_loop\<close>. The arguments are the value of \<open>time.time()\<close> and the
  position draws of the coins that the spawn step may create; the length of the list is
  the value of \<open>random.randint(1, 2)\<close>.
\<close>

definition game_loop_iteration ::
  "real \<Rightarrow> (int \<times> int) list \<Rightarrow> GameServer \<Rightarrow> error + GameServer" where
  "game_loop_iteration current_time draws s =
     (if \<not> game_started s then Inr s else winner_check (simulate current_time draws s))"

section \<open>Sessions as event sequences\<close>

datatype event =
    Connect string int int nat
  | Disconnect string
  | Message string message "(int \<times> int) list"
  | Tick real "(int \<times> int) list"

fun step :: "event \<Rightarrow> GameServer \<Rightarrow> error + GameServer" where
  "step (Connect player_id rx ry rc) s = Inr (fst (handle_client_connect player_id rx ry rc s))"
| "step (Disconnect player_id) s = Inr (handle_client_disconnect player_id s)"
| "step (Message player_id m draws) s = Inr (handle_message player_id m draws s)"
| "step (Tick current_time draws) s = game_loop_iteration current_time draws s"

fun run :: "event list \<Rightarrow> GameServer \<Rightarrow> error + GameServer" where
  "run [] s = Inr s"
| "run (e # es) s = (case step e s of Inl err \<Rightarrow> Inl err | Inr s' \<Rightarrow> run es s')"

text \<open>
  A session is a sequence of events, each handled to completion before the next: a
  connection, a disconnection, a client message, an iteration of the game loop. Sends to
  clients are output only and are taken to succeed.

  The ranges of the random draws an event carries: \<open>randint(PLAYER_SIZE, SCREEN_WIDTH -
  PLAYER_SIZE)\<close> and its vertical counterpart for a new player, \<open>randint(COIN_SIZE, ... -
  COIN_SIZE)\<close> for a coin, \<open>randint(MIN_COINS, MAX_COINS)\<close> coins at a start and
  \<open>randint(1, 2)\<close> at a spawn step. A connection's id is the text of a number, so it is
  not empty.
\<close>

definition coin_draw_ok :: "int \<times> int \<Rightarrow> bool" where
  "coin_draw_ok r =
     (COIN_SIZE \<le> fst r \<and> fst r \<le> SCREEN_WIDTH - COIN_SIZE \<and>
      COIN_SIZE \<le> snd r \<and> snd r \<le> SCREEN_HEIGHT - COIN_SIZE)"

fun event_ok :: "event \<Rightarrow> bool" where
  "event_ok (Connect player_id rx ry rc) =
     (player_id \<noteq> [] \<and> PLAYER_SIZE \<le> rx \<and> rx \<le> SCREEN_WIDTH - PLAYER_SIZE \<and>
      PLAYER_SIZE \<le> ry \<and> ry \<le> SCREEN_HEIGHT - PLAYER_SIZE \<and> rc < 5)"
| "event_ok (Disconnect player_id) = True"
| "event_ok (Message player_id (StartGame mode) draws) =
     (MIN_COINS \<le> int (length draws) \<and> int (length draws) \<le> MAX_COINS \<and>
      list_all coin_draw_ok draws)"
| "event_ok (Message player_id m draws) = True"
| "event_ok (Tick current_time draws) =
     (1 \<le> length draws \<and> length draws \<le> 2 \<and> list_all coin_draw_ok draws)"

section \<open>Client interpolation (client.py)\<close>





section \<open>Notions used in the properties\<close>

text \<open>
  The definitions of this section are not code of the repository: they name the notions
  in which the properties below are stated and proved (the arena bounds, the first player
  in range of a coin, the pickups of a pass written as a function of the state).
\<close>

definition unscored :: "(string \<times> Player) list \<Rightarrow> (string \<times> Player) list" where
  "unscored ps = map (\<lambda>(k, p). (k, zero_score p)) ps"

definition in_arena :: "Player \<Rightarrow> bool" where
  "in_arena p =
     (of_int PLAYER_SIZE / 2 \<le> p_x p \<and> p_x p \<le> of_int SCREEN_WIDTH - of_int PLAYER_SIZE / 2 \<and>
      of_int PLAYER_SIZE / 2 \<le> p_y p \<and> p_y p \<le> of_int SCREEN_HEIGHT - of_int PLAYER_SIZE / 2)"

definition all_in_arena :: "GameServer \<Rightarrow> bool" where
  "all_in_arena s = list_all (\<lambda>kp. in_arena (snd kp)) (players s)"

fun first_in_range :: "Coin \<Rightarrow> (string \<times> Player) list \<Rightarrow> string option" where
  "first_in_range c [] = None"
| "first_in_range c ((k, p) # ps) =
     (if distance p c < 25 then Some k else first_in_range c ps)"

fun claims :: "(int \<times> Coin) list \<Rightarrow> (string \<times> Player) list \<Rightarrow> (int \<times> string) list" where
  "claims [] ps = []"
| "claims ((coin_id, c) # cs) ps =
     (case first_in_range c ps of None \<Rightarrow> claims cs ps | Some k \<Rightarrow> (coin_id, k) # claims cs ps)"

definition pickups_of :: "string \<Rightarrow> (int \<times> string \<times> int) list \<Rightarrow> int" where
  "pickups_of k L = int (length (filter (\<lambda>e. fst (snd e) = k) L))"

definition add_pickups :: "(int \<times> string \<times> int) list \<Rightarrow> (string \<times> Player) list \<Rightarrow> (string \<times> Player) list" where
  "add_pickups L ps = map (\<lambda>(k, p). (k, p\<lparr>p_score := p_score p + pickups_of k L\<rparr>)) ps"

fun last_reaching :: "(int \<times> string \<times> int) list \<Rightarrow> string option \<Rightarrow> string option" where
  "last_reaching [] w = w"
| "last_reaching ((coin_id, k, n) # L) w = last_reaching L (if n \<ge> 10 then Some k else w)"

definition score_of :: "(string \<times> Player) list \<Rightarrow> string \<Rightarrow> int" where
  "score_of ps k = (case map_of ps k of None \<Rightarrow> 0 | Some p \<Rightarrow> p_score p)"

definition hit_acc :: "string \<Rightarrow> int \<Rightarrow> string \<Rightarrow> int \<Rightarrow> pass_acc \<Rightarrow> pass_acc" where
  "hit_acc mode cid k n acc =
     acc\<lparr>coins_to_remove := coins_to_remove acc @ [cid],
         pickups := pickups acc @ [(cid, k, n)],
         acc_winner := (if mode = ''sprint'' \<and> n \<ge> 10 then Some k else acc_winner acc)\<rparr>"

fun pass_log :: "(int \<times> Coin) list \<Rightarrow> (string \<times> Player) list \<Rightarrow> (int \<times> string \<times> int) list" where
  "pass_log [] ps = []"
| "pass_log ((coin_id, c) # cs) ps =
     (case first_in_range c ps of
        None \<Rightarrow> pass_log cs ps
      | Some k \<Rightarrow> (coin_id, k, score_of ps k + 1)
                    # pass_log cs (add_pickups [(coin_id, k, score_of ps k + 1)] ps))"

definition pass_result :: "string \<Rightarrow> (int \<times> string \<times> int) list \<Rightarrow> pass_acc \<Rightarrow> pass_acc" where
  "pass_result mode L acc =
     acc\<lparr>coins_to_remove := coins_to_remove acc @ map fst L,
         pickups := pickups acc @ L,
         acc_winner := (if mode = ''sprint'' then last_reaching L (acc_winner acc) else acc_winner acc)\<rparr>"

subsection \<open>Example inputs\<close>


definition example_session :: "event list" where
  "example_session =
     [Connect ''1'' 30 370 0, Connect ''2'' 570 30 0,
      Message ''1'' (StartGame (Some ''sprint'')) [(40, 380), (100, 100), (200, 200)],
      Message ''1'' (Input (Some 1) (Some 1)) [],
      Tick 3 [(50, 50)]]"

definition example_alice :: Player where
  "example_alice =
     \<lparr> p_id = ''1'', p_name = ''Alice'', p_x = 35, p_y = 375, p_score = 1,
       p_color = [255, 100, 100], velocity_x = 1, velocity_y = 1 \<rparr>"

definition example_bob :: Player where
  "example_bob =
     \<lparr> p_id = ''2'', p_name = ''Bob'', p_x = 570, p_y = 30, p_score = 0,
       p_color = [100, 100, 255], velocity_x = 0, velocity_y = 0 \<rparr>"

definition example_final :: GameServer where
  "example_final =
     \<lparr> players = [(''1'', example_alice), (''2'', example_bob)],
       coins = [(1, \<lparr>c_id = 1, c_x = 100, c_y = 100\<rparr>), (2, \<lparr>c_id = 2, c_x = 200, c_y = 200\<rparr>),
                (3, \<lparr>c_id = 3, c_x = 50, c_y = 50\<rparr>)],
       next_coin_id = 4, game_started = True, game_mode = ''sprint'', winner = None,
       last_coin_spawn = 3, player_count = 2 \<rparr>"

definition example_nine :: "string \<Rightarrow> string \<Rightarrow> real \<Rightarrow> Player" where
  "example_nine k n pos =
     \<lparr> p_id = k, p_name = n, p_x = pos, p_y = pos, p_score = 9,
       p_color = [255, 100, 100], velocity_x = 0, velocity_y = 0 \<rparr>"

definition example_match_point :: GameServer where
  "example_match_point =
     \<lparr> players = [(''1'', example_nine ''1'' ''Alice'' 100), (''2'', example_nine ''2'' ''Bob'' 300)],
       coins = [(0, \<lparr>c_id = 0, c_x = 100, c_y = 100\<rparr>), (1, \<lparr>c_id = 1, c_x = 300, c_y = 300\<rparr>)],
       next_coin_id = 2, game_started = True, game_mode = ''sprint'', winner = None,
       last_coin_spawn = 0, player_count = 2 \<rparr>"

definition example_three_connects :: "event list" where
  "example_three_connects =
     [Connect ''1'' 30 370 0, Connect ''2'' 570 30 0, Connect ''3'' 300 200 0]"

definition example_after_reset :: GameServer where
  "example_after_reset =
     \<lparr> players = [(''1'', (example_nine ''1'' ''Alice'' 100)\<lparr>p_score := 0\<rparr>),
                  (''2'', (example_nine ''2'' ''Bob'' 300)\<lparr>p_score := 0\<rparr>)],
       coins = [], next_coin_id = 2, game_started = False, game_mode = ''sprint'', winner = None,
       last_coin_spawn = 0, player_count = 2 \<rparr>"

definition example_lobby :: GameServer where
  "example_lobby = projr (run [Connect ''1'' 30 370 0, Connect ''2'' 570 30 0] (GameServer_init 0))"

definition coins_from :: "GameServer \<Rightarrow> GameServer \<Rightarrow> bool" where
  "coins_from s s' =
     (next_coin_id s \<le> next_coin_id s' \<and>
      list_all (\<lambda>kc. fst kc \<in> fst ` set (coins s) \<or> (next_coin_id s \<le> fst kc \<and> fst kc < next_coin_id s'))
        (coins s'))"

definition example_before_win :: GameServer where
  "example_before_win =
     \<lparr> players = [(''1'', \<lparr> p_id = ''1'', p_name = ''Alice'', p_x = 70, p_y = 100, p_score = 9,
                            p_color = [255, 100, 100], velocity_x = 0, velocity_y = 0 \<rparr>),
                  (''2'', \<lparr> p_id = ''2'', p_name = ''Bob'', p_x = 300, p_y = 300, p_score = 0,
                            p_color = [100, 100, 255], velocity_x = 0, velocity_y = 0 \<rparr>)],
       coins = [(0, \<lparr>c_id = 0, c_x = 99, c_y = 100\<rparr>), (1, \<lparr>c_id = 1, c_x = 500, c_y = 300\<rparr>)],
       next_coin_id = 2, game_started = True, game_mode = ''sprint'', winner = None,
       last_coin_spawn = 0, player_count = 2 \<rparr>"

definition example_win_events :: "event list" where
  "example_win_events = [Message ''1'' (Input (Some 1) None) [], Tick 4 [(60, 60)]]"

definition example_restart :: event where
  "example_restart = Message ''2'' (StartGame (Some ''endless'')) [(40, 380), (100, 100), (200, 200)]"

definition example_spawned :: GameServer where
  "example_spawned =
     \<lparr> players = [(''1'', \<lparr> p_id = ''1'', p_name = ''Alice'', p_x = 70, p_y = 100, p_score = 9,
                            p_color = [255, 100, 100], velocity_x = 0, velocity_y = 0 \<rparr>),
                  (''2'', \<lparr> p_id = ''2'', p_name = ''Bob'', p_x = 300, p_y = 300, p_score = 0,
                            p_color = [100, 100, 255], velocity_x = 0, velocity_y = 0 \<rparr>)],
       coins = [(0, \<lparr>c_id = 0, c_x = 99, c_y = 100\<rparr>), (1, \<lparr>c_id = 1, c_x = 500, c_y = 300\<rparr>), (2, \<lparr>c_id = 2, c_x = 50, c_y = 50\<rparr>)],
       next_coin_id = 3, game_started = True, game_mode = ''sprint'', winner = None,
       last_coin_spawn = 3, player_count = 2 \<rparr>"

definition example_won_reset :: GameServer where
  "example_won_reset =
     \<lparr> players = [(''1'', \<lparr> p_id = ''1'', p_name = ''Alice'', p_x = 75, p_y = 100, p_score = 0,
                            p_color = [255, 100, 100], velocity_x = 1, velocity_y = 0 \<rparr>),
                  (''2'', \<lparr> p_id = ''2'', p_name = ''Bob'', p_x = 300, p_y = 300, p_score = 0,
                            p_color = [100, 100, 255], velocity_x = 0, velocity_y = 0 \<rparr>)],
       coins = [],
       next_coin_id = 3, game_started = False, game_mode = ''sprint'', winner = None,
       last_coin_spawn = 3, player_count = 2 \<rparr>"

definition example_restarted :: GameServer where
  "example_restarted =
     \<lparr> players = [(''1'', \<lparr> p_id = ''1'', p_name = ''Alice'', p_x = 75, p_y = 100, p_score = 0,
                            p_color = [255, 100, 100], velocity_x = 1, velocity_y = 0 \<rparr>),
                  (''2'', \<lparr> p_id = ''2'', p_name = ''Bob'', p_x = 300, p_y = 300, p_score = 0,
                            p_color = [100, 100, 255], velocity_x = 0, velocity_y = 0 \<rparr>)],
       coins = [(3, \<lparr>c_id = 3, c_x = 40, c_y = 380\<rparr>), (4, \<lparr>c_id = 4, c_x = 100, c_y = 100\<rparr>), (5, \<lparr>c_id = 5, c_x = 200, c_y = 200\<rparr>)],
       next_coin_id = 6, game_started = True, game_mode = ''endless'', winner = None,
       last_coin_spawn = 3, player_count = 2 \<rparr>"

definition coin_ids_below :: "GameServer \<Rightarrow> bool" where
  "coin_ids_below s = list_all (\<lambda>kc. fst kc < next_coin_id s) (coins s)"

definition idle_no_coins :: "GameServer \<Rightarrow> bool" where
  "idle_no_coins s = (game_started s \<or> coins s = [])"

definition example_start_events :: "event list" where
  "example_start_events = [Connect ''1'' 30 370 0, Connect ''2'' 570 30 0]"

definition example_draws :: "(int \<times> int) list" where
  "example_draws = [(40, 380), (100, 100), (200, 200)]"

definition example_endless_point :: GameServer where
  "example_endless_point = example_match_point\<lparr>game_mode := ''endless''\<rparr>"


definition well_formed :: "GameServer \<Rightarrow> bool" where
  "well_formed s =
     (distinct (map fst (players s)) \<and> distinct (map fst (coins s)) \<and> coin_ids_below s)"


section \<open>Properties\<close>

lemmas consts_defs = SCREEN_WIDTH_def SCREEN_HEIGHT_def PLAYER_SIZE_def COIN_SIZE_def
  PLAYER_SPEED_def COIN_SPAWN_INTERVAL_def MIN_COINS_def MAX_COINS_def
  COLLISION_DISTANCE_def SPRINT_WIN_SCORE_def

subsection \<open>Auxiliary facts\<close>

lemma unscored_simps [simp]:
  "unscored [] = []"
  "unscored ((k, p) # ps) = (k, zero_score p) # unscored ps"
  by (simp_all add: unscored_def)

lemma players_loop_unscored:
  "unscored (fst (players_loop mode cid c ps acc)) = unscored ps"
  by (induction ps) (auto simp: Let_def zero_score_def split: prod.splits)

lemma coins_loop_unscored:
  "unscored (fst (coins_loop mode cs ps acc)) = unscored ps"
proof (induction cs arbitrary: ps acc)
  case Nil
  show ?case by simp
next
  case (Cons a cs)
  obtain cid c where a: "a = (cid, c)" by (cases a)
  obtain ps' acc' where pl: "players_loop mode cid c ps acc = (ps', acc')" by (cases "players_loop mode cid c ps acc")
  have "unscored ps' = unscored ps" using players_loop_unscored [of mode cid c ps acc] pl by simp
  then show ?case using Cons.IH [of ps' acc'] a pl by simp
qed

lemma in_arena_zero_score [simp]: "in_arena (zero_score p) = in_arena p"
  by (simp add: in_arena_def zero_score_def)

lemma list_all_unscored:
  "list_all (\<lambda>kp. in_arena (snd kp)) (unscored ps) = list_all (\<lambda>kp. in_arena (snd kp)) ps"
  by (induction ps) (auto simp: unscored_def)

lemma update_position_in_arena: "in_arena (update_position p)"
  by (simp add: in_arena_def update_position_def Let_def consts_defs)

lemma Player_init_in_arena:
  "event_ok (Connect player_id rx ry rc) \<Longrightarrow> in_arena (Player_init player_id name color rx ry rc)"
  by (simp add: in_arena_def Player_init_def consts_defs)

lemma set_update_subset: "set (AList.update k v al) \<subseteq> insert (k, v) (set al)"
  by (induction al) auto

lemma list_all_update:
  "P (k, v) \<Longrightarrow> list_all P al \<Longrightarrow> list_all P (AList.update k v al)"
  using set_update_subset [of k v al] by (auto simp: list_all_iff)

lemma list_all_delete: "list_all P al \<Longrightarrow> list_all P (AList.delete k al)"
  by (auto simp: list_all_iff AList.delete_eq)

lemma list_all_map_entry:
  "(\<And>v. P (k, v) \<Longrightarrow> P (k, f v)) \<Longrightarrow> list_all P al \<Longrightarrow> list_all P (AList.map_entry k f al)"
  by (induction al) auto

lemma players_fold_spawn_coin [simp]: "players (fold spawn_coin draws s) = players s"
  by (induction draws arbitrary: s) (simp_all add: spawn_coin_def)

lemma players_fold_spawn_if_room [simp]: "players (fold spawn_if_room draws s) = players s"
  by (induction draws arbitrary: s) (simp_all add: spawn_if_room_def spawn_coin_def)

lemma players_spawn_phase [simp]: "players (spawn_phase t draws s) = players s"
  by (simp add: spawn_phase_def)

lemma players_check_collisions: "players (check_collisions s) = fst (collision_pass s)"
  by (simp add: check_collisions_def split: prod.splits)

lemma simulate_in_arena: "all_in_arena (simulate t draws s)"
proof -
  let ?moved = "map (\<lambda>(k, p). (k, update_position p)) (players s)"
  have m: "list_all (\<lambda>kp. in_arena (snd kp)) ?moved"
    by (auto simp: list_all_iff update_position_in_arena)
  have "unscored (players (simulate t draws s)) = unscored ?moved"
    by (simp add: simulate_def move_players_def players_check_collisions collision_pass_def
          coins_loop_unscored)
  then have "list_all (\<lambda>kp. in_arena (snd kp)) (players (simulate t draws s))
             = list_all (\<lambda>kp. in_arena (snd kp)) ?moved"
    by (metis list_all_unscored)
  then show ?thesis using m by (simp add: all_in_arena_def)
qed

lemma game_over_reset_in_arena: "all_in_arena s \<Longrightarrow> all_in_arena (game_over_reset s)"
  by (auto simp: all_in_arena_def game_over_reset_def list_all_iff)

lemma step_in_arena:
  assumes "all_in_arena s" "event_ok e" "step e s = Inr s'"
  shows "all_in_arena s'"
proof (cases e)
  case (Connect player_id rx ry rc)
  then show ?thesis using assms
    by (auto simp: all_in_arena_def handle_client_connect_def Let_def
             intro!: list_all_update Player_init_in_arena)
next
  case (Disconnect player_id)
  then show ?thesis using assms
    by (auto simp: all_in_arena_def handle_client_disconnect_def intro: list_all_delete)
next
  case (Message player_id m draws)
  show ?thesis
  proof (cases m)
    case (Input dx dy)
    have "list_all (\<lambda>kp. in_arena (snd kp))
            (AList.map_entry player_id (set_velocity a b) (players s))" for a b
      using assms(1) unfolding all_in_arena_def
      by (intro list_all_map_entry) (simp_all add: in_arena_def set_velocity_def)
    then show ?thesis using assms Message Input by (auto simp: all_in_arena_def)
  next
    case (StartGame mode)
    then show ?thesis using assms Message
      by (auto simp: all_in_arena_def start_game_def split: if_splits)
  next
    case Other
    then show ?thesis using assms Message by simp
  qed
next
  case (Tick t draws)
  then show ?thesis using assms simulate_in_arena [of t draws s]
    by (auto simp: game_loop_iteration_def winner_check_def game_over_reset_in_arena
             split: if_splits option.splits)
qed

lemma run_invariant:
  assumes step: "\<And>e s s'. I s \<Longrightarrow> event_ok e \<Longrightarrow> step e s = Inr s' \<Longrightarrow> I s'"
  shows "I s \<Longrightarrow> list_all event_ok es \<Longrightarrow> run es s = Inr s' \<Longrightarrow> I s'"
proof (induction es arbitrary: s)
  case Nil
  then show ?case by simp
next
  case (Cons e es)
  then show ?case using step by (auto split: sum.splits)
qed

lemma COLLISION_DISTANCE_25: "COLLISION_DISTANCE = 25"
  by (simp add: consts_defs)

lemma first_in_range_unscored:
  "unscored ps' = unscored ps \<Longrightarrow> first_in_range c ps' = first_in_range c ps"
proof (induction ps arbitrary: ps')
  case Nil
  then show ?case by (simp add: unscored_def)
next
  case (Cons a ps)
  obtain k p where a: "a = (k, p)" by (cases a)
  from Cons.prems a obtain p' rest where ps': "ps' = (k, p') # rest"
    and z: "zero_score p' = zero_score p" and r: "unscored rest = unscored ps"
    by (cases ps') (auto simp: unscored_def)
  have "p_x p' = p_x (zero_score p') \<and> p_y p' = p_y (zero_score p')"
    by (simp add: zero_score_def)
  moreover have "p_x p = p_x (zero_score p) \<and> p_y p = p_y (zero_score p)"
    by (simp add: zero_score_def)
  ultimately have "p_x p' = p_x p \<and> p_y p' = p_y p"
    using z by simp
  then have "distance p' c = distance p c" by (simp add: distance_def)
  then show ?case using Cons.IH [OF r] a ps' by simp
qed

lemma claims_unscored:
  "unscored ps' = unscored ps \<Longrightarrow> claims cs ps' = claims cs ps"
proof (induction cs)
  case Nil
  show ?case by simp
next
  case (Cons a cs)
  obtain cid c where a: "a = (cid, c)" by (cases a)
  have "first_in_range c ps' = first_in_range c ps"
    using Cons.prems by (rule first_in_range_unscored)
  moreover have "claims cs ps' = claims cs ps" using Cons by simp
  ultimately show ?case using a by (simp split: option.splits)
qed

lemma add_pickups_Nil [simp]: "add_pickups [] ps = ps"
  by (induction ps) (auto simp: add_pickups_def pickups_of_def)

lemma add_pickups_append: "add_pickups L2 (add_pickups L1 ps) = add_pickups (L1 @ L2) ps"
  by (induction ps) (auto simp: add_pickups_def pickups_of_def)

lemma add_pickups_other:
  "k \<notin> fst ` set ps \<Longrightarrow> add_pickups [(cid, k, n)] ps = ps"
  by (induction ps) (auto simp: add_pickups_def pickups_of_def)

lemma last_reaching_append:
  "last_reaching (L1 @ L2) w = last_reaching L2 (last_reaching L1 w)"
  by (induction L1 arbitrary: w) auto

lemma players_loop_miss:
  "first_in_range c ps = None \<Longrightarrow> players_loop mode cid c ps acc = (ps, acc)"
  by (induction ps) (auto simp: COLLISION_DISTANCE_25 split: if_splits)

lemma first_in_range_key: "first_in_range c ps = Some k \<Longrightarrow> k \<in> fst ` set ps"
  by (induction ps) (auto split: if_splits)

lemma add_pickups_Cons_other:
  "k' \<noteq> k \<Longrightarrow> add_pickups [(cid, k, n)] ((k', p') # ps) = (k', p') # add_pickups [(cid, k, n)] ps"
  by (simp add: add_pickups_def pickups_of_def)

lemma add_pickups_Cons_same:
  "k \<notin> fst ` set ps \<Longrightarrow>
   add_pickups [(cid, k, n)] ((k, p) # ps) = (k, p\<lparr>p_score := p_score p + 1\<rparr>) # ps"
  using add_pickups_other [of k ps cid n] by (simp add: add_pickups_def pickups_of_def)

lemma players_loop_hit:
  assumes "first_in_range c ps = Some k" "distinct (map fst ps)"
  shows "players_loop mode cid c ps acc =
           (add_pickups [(cid, k, score_of ps k + 1)] ps, hit_acc mode cid k (score_of ps k + 1) acc)"
  using assms
proof (induction ps)
  case Nil
  then show ?case by simp
next
  case (Cons a ps)
  obtain k' p' where a: "a = (k', p')" by (cases a)
  show ?case
  proof (cases "distance p' c < 25")
    case True
    then have k: "k = k'" using Cons.prems a by simp
    have nk: "k' \<notin> fst ` set ps" using Cons.prems a by auto
    have sc: "score_of ((k', p') # ps) k' = p_score p'" by (simp add: score_of_def)
    have pl: "players_loop mode cid c ((k', p') # ps) acc =
            ((k', p'\<lparr>p_score := p_score p' + 1\<rparr>) # ps, hit_acc mode cid k' (p_score p' + 1) acc)"
      using True by (simp add: COLLISION_DISTANCE_25 Let_def SPRINT_WIN_SCORE_def hit_acc_def)
    show ?thesis unfolding a k sc pl add_pickups_Cons_same [OF nk] ..
  next
    case False
    then have f: "first_in_range c ps = Some k" using Cons.prems a by simp
    have d: "distinct (map fst ps)" using Cons.prems by simp
    have "k \<in> fst ` set ps" using f by (rule first_in_range_key)
    then have kk: "k' \<noteq> k" using Cons.prems a by auto
    have sc: "score_of ((k', p') # ps) k = score_of ps k" using kk by (simp add: score_of_def)
    have pl: "players_loop mode cid c ((k', p') # ps) acc =
            ((k', p') # fst (players_loop mode cid c ps acc), snd (players_loop mode cid c ps acc))"
      using False by (simp add: COLLISION_DISTANCE_25 split: prod.splits)
    show ?thesis unfolding a sc pl Cons.IH [OF f d] add_pickups_Cons_other [OF kk] by simp
  qed
qed

lemma map_fst_add_pickups [simp]: "map fst (add_pickups L ps) = map fst ps"
  by (induction ps) (auto simp: add_pickups_def)

lemma unscored_add_pickups [simp]: "unscored (add_pickups L ps) = unscored ps"
  by (induction ps) (auto simp: add_pickups_def unscored_def zero_score_def)

lemma pass_result_Nil [simp]: "pass_result mode [] acc = acc"
  by (simp add: pass_result_def)

lemma pass_result_Cons:
  "pass_result mode L (hit_acc mode cid k n acc) = pass_result mode ((cid, k, n) # L) acc"
  by (simp add: pass_result_def hit_acc_def)

lemma coins_loop_char:
  "distinct (map fst ps) \<Longrightarrow>
   coins_loop mode cs ps acc = (add_pickups (pass_log cs ps) ps, pass_result mode (pass_log cs ps) acc)"
proof (induction cs arbitrary: ps acc)
  case Nil
  show ?case by simp
next
  case (Cons a cs)
  obtain cid c where a: "a = (cid, c)" by (cases a)
  show ?case
  proof (cases "first_in_range c ps")
    case None
    have "players_loop mode cid c ps acc = (ps, acc)" using None by (rule players_loop_miss)
    then show ?thesis using Cons.IH [OF Cons.prems, of acc] a None by simp
  next
    case (Some k)
    let ?n = "score_of ps k + 1"
    let ?ps1 = "add_pickups [(cid, k, ?n)] ps"
    have pl: "players_loop mode cid c ps acc = (?ps1, hit_acc mode cid k ?n acc)"
      using Some Cons.prems by (rule players_loop_hit)
    have d: "distinct (map fst ?ps1)" using Cons.prems by simp
    have lg: "pass_log ((cid, c) # cs) ps = (cid, k, ?n) # pass_log cs ?ps1"
      using Some by simp
    have "coins_loop mode ((cid, c) # cs) ps acc = coins_loop mode cs ?ps1 (hit_acc mode cid k ?n acc)"
      using pl by simp
    also have "\<dots> = (add_pickups (pass_log cs ?ps1) ?ps1,
                        pass_result mode (pass_log cs ?ps1) (hit_acc mode cid k ?n acc))"
      by (rule Cons.IH [OF d])
    also have "\<dots> = (add_pickups ((cid, k, ?n) # pass_log cs ?ps1) ps,
                        pass_result mode ((cid, k, ?n) # pass_log cs ?ps1) acc)"
      by (simp add: add_pickups_append pass_result_Cons)
    finally show ?thesis unfolding a lg .
  qed
qed

lemma pass_log_claims: "map (\<lambda>e. (fst e, fst (snd e))) (pass_log cs ps) = claims cs ps"
proof (induction cs arbitrary: ps)
  case Nil
  show ?case by simp
next
  case (Cons a cs)
  obtain cid c where a: "a = (cid, c)" by (cases a)
  show ?case
  proof (cases "first_in_range c ps")
    case None
    then show ?thesis using Cons.IH [of ps] a by simp
  next
    case (Some k)
    let ?ps1 = "add_pickups [(cid, k, score_of ps k + 1)] ps"
    have "claims cs ?ps1 = claims cs ps" by (rule claims_unscored) simp
    then show ?thesis using Cons.IH [of ?ps1] a Some by simp
  qed
qed

lemma remove_coins_filter:
  "remove_coins rm cs = filter (\<lambda>kc. fst kc \<notin> set rm) cs"
proof (induction rm arbitrary: cs)
  case Nil
  show ?case by simp
next
  case (Cons a rm)
  have d: "AList.delete a cs = filter (\<lambda>kc. fst kc \<noteq> a) cs"
    by (induction cs) auto
  have n: "a \<notin> set (map fst cs) \<Longrightarrow> filter (\<lambda>kc. fst kc \<noteq> a) cs = cs"
    by (induction cs) auto
  have "remove_coins (a # rm) cs = remove_coins rm (filter (\<lambda>kc. fst kc \<noteq> a) cs)"
    using d n by (cases "a \<in> set (map fst cs)") simp_all
  also have "\<dots> = filter (\<lambda>kc. fst kc \<notin> set rm) (filter (\<lambda>kc. fst kc \<noteq> a) cs)"
    by (rule Cons.IH)
  also have "\<dots> = filter (\<lambda>kc. fst kc \<notin> set (a # rm)) cs"
    by (induction cs) auto
  finally show ?case .
qed

lemma collision_pass_char:
  "distinct (map fst (players s)) \<Longrightarrow>
   collision_pass s =
     (add_pickups (pass_log (coins s) (players s)) (players s),
      \<lparr>coins_to_remove = map fst (pass_log (coins s) (players s)),
       acc_winner = (if game_mode s = ''sprint''
                     then last_reaching (pass_log (coins s) (players s)) (winner s) else winner s),
       pickups = pass_log (coins s) (players s)\<rparr>)"
  by (simp add: collision_pass_def coins_loop_char pass_result_def)

lemma check_collisions_char:
  assumes "distinct (map fst (players s))"
  shows "check_collisions s =
     s\<lparr>players := add_pickups (pass_log (coins s) (players s)) (players s),
       winner := (if game_mode s = ''sprint''
                  then last_reaching (pass_log (coins s) (players s)) (winner s) else winner s),
       coins := filter (\<lambda>kc. fst kc \<notin> set (map fst (pass_log (coins s) (players s)))) (coins s)\<rparr>"
  unfolding check_collisions_def collision_pass_char [OF assms]
  by (simp add: remove_coins_filter)

lemma map_fst_claims: "map fst (claims cs ps) = map fst (filter (\<lambda>kc. first_in_range (snd kc) ps \<noteq> None) cs)"
  by (induction cs) (auto split: option.splits)

lemma map_fst_pass_log:
  "map fst (pass_log cs ps) = map fst (filter (\<lambda>kc. first_in_range (snd kc) ps \<noteq> None) cs)"
proof -
  have "map fst (pass_log cs ps) = map fst (map (\<lambda>e. (fst e, fst (snd e))) (pass_log cs ps))"
    by (simp add: comp_def)
  then show ?thesis by (simp only: pass_log_claims map_fst_claims)
qed


lemma pickups_of_Cons:
  "pickups_of k (e # L) = (if fst (snd e) = k then 1 else 0) + pickups_of k L"
  by (simp add: pickups_of_def)

lemma pickups_of_nonneg: "0 \<le> pickups_of k L"
  by (simp add: pickups_of_def)

lemma map_of_add_pickups:
  "map_of (add_pickups L ps) k =
     map_option (\<lambda>p. p\<lparr>p_score := p_score p + pickups_of k L\<rparr>) (map_of ps k)"
  by (induction ps) (auto simp: add_pickups_def)

lemma score_of_add_pickups:
  "k \<in> fst ` set ps \<Longrightarrow> score_of (add_pickups L ps) k = score_of ps k + pickups_of k L"
proof -
  assume "k \<in> fst ` set ps"
  then obtain p where "map_of ps k = Some p"
    by (metis domD dom_map_of_conv_image_fst)
  then show ?thesis by (simp add: score_of_def map_of_add_pickups)
qed

lemma pass_log_keys:
  "e \<in> set (pass_log cs ps) \<Longrightarrow> fst (snd e) \<in> fst ` set ps"
proof (induction cs arbitrary: ps)
  case Nil
  then show ?case by simp
next
  case (Cons a cs)
  obtain cid c where a: "a = (cid, c)" by (cases a)
  show ?case
  proof (cases "first_in_range c ps")
    case None
    then show ?thesis using Cons a by simp
  next
    case (Some k0)
    let ?ps1 = "add_pickups [(cid, k0, score_of ps k0 + 1)] ps"
    have k0: "k0 \<in> fst ` set ps" using Some by (rule first_in_range_key)
    from Cons.prems a Some
    consider "e = (cid, k0, score_of ps k0 + 1)" | "e \<in> set (pass_log cs ?ps1)" by auto
    then show ?thesis
    proof cases
      case 1
      then show ?thesis using k0 by simp
    next
      case 2
      then have "fst (snd e) \<in> fst ` set ?ps1" by (rule Cons.IH)
      moreover have "fst ` set ?ps1 = fst ` set ps"
        by (metis map_fst_add_pickups set_map)
      ultimately show ?thesis by simp
    qed
  qed
qed

lemma pass_log_score_bound:
  "e \<in> set (pass_log cs ps) \<Longrightarrow>
   snd (snd e) \<le> score_of ps (fst (snd e)) + pickups_of (fst (snd e)) (pass_log cs ps)"
proof (induction cs arbitrary: ps)
  case Nil
  then show ?case by simp
next
  case (Cons a cs)
  obtain cid c where a: "a = (cid, c)" by (cases a)
  show ?case
  proof (cases "first_in_range c ps")
    case None
    then show ?thesis using Cons a by simp
  next
    case (Some k0)
    let ?n0 = "score_of ps k0 + 1"
    let ?ps1 = "add_pickups [(cid, k0, ?n0)] ps"
    let ?L1 = "pass_log cs ?ps1"
    have lg: "pass_log (a # cs) ps = (cid, k0, ?n0) # ?L1" using a Some by simp
    from Cons.prems lg consider "e = (cid, k0, ?n0)" | "e \<in> set ?L1" by auto
    then show ?thesis
    proof cases
      case 1
      have "0 \<le> pickups_of k0 ?L1" by (rule pickups_of_nonneg)
      then show ?thesis unfolding lg using 1 by (simp add: pickups_of_Cons)
    next
      case 2
      let ?k = "fst (snd e)"
      have b: "snd (snd e) \<le> score_of ?ps1 ?k + pickups_of ?k ?L1" using 2 by (rule Cons.IH)
      have "?k \<in> fst ` set ?ps1" using 2 by (rule pass_log_keys)
      then have "?k \<in> fst ` set ps" by (metis map_fst_add_pickups set_map)
      then have "score_of ?ps1 ?k = score_of ps ?k + pickups_of ?k [(cid, k0, ?n0)]"
        by (rule score_of_add_pickups)
      then have sc: "score_of ?ps1 ?k = score_of ps ?k + (if k0 = ?k then 1 else 0)"
        by (simp add: pickups_of_def)
      have pc: "pickups_of ?k ((cid, k0, ?n0) # ?L1) = (if k0 = ?k then 1 else 0) + pickups_of ?k ?L1"
        by (simp add: pickups_of_Cons)
      have "snd (snd e) \<le> score_of ps ?k + pickups_of ?k ((cid, k0, ?n0) # ?L1)"
        using b unfolding sc pc by linarith
      then show ?thesis unfolding lg .
    qed
  qed
qed

lemma last_reaching_changed:
  "last_reaching L w \<noteq> w \<Longrightarrow>
   \<exists>e \<in> set L. snd (snd e) \<ge> 10 \<and> last_reaching L w = Some (fst (snd e))"
proof (induction L arbitrary: w)
  case Nil
  then show ?case by simp
next
  case (Cons a L)
  obtain cid k n where a: "a = (cid, k, n)" by (cases a)
  let ?w1 = "if n \<ge> 10 then Some k else w"
  show ?case
  proof (cases "last_reaching L ?w1 = ?w1")
    case True
    then have "n \<ge> 10 \<and> last_reaching (a # L) w = Some k"
      using Cons.prems a by (auto split: if_splits)
    then show ?thesis using a by auto
  next
    case False
    then obtain e where "e \<in> set L" "snd (snd e) \<ge> 10" "last_reaching L ?w1 = Some (fst (snd e))"
      using Cons.IH by blast
    then show ?thesis using a by auto
  qed
qed

subsection \<open>Client interpolation\<close>






subsection \<open>Evaluating the model on concrete inputs\<close>

lemma in_range_iff:
  "distance p c < 25 \<longleftrightarrow> (p_x p - of_int (c_x c))\<^sup>2 + (p_y p - of_int (c_y c))\<^sup>2 < 625"
proof -
  have "distance p c < 25 \<longleftrightarrow> sqrt ((p_x p - of_int (c_x c))\<^sup>2 + (p_y p - of_int (c_y c))\<^sup>2) < sqrt 625"
    by (simp add: distance_def Let_def power2_eq_square)
  then show ?thesis by (simp only: real_sqrt_less_iff)
qed

lemmas eval_defs = GameServer_init_def handle_client_connect_def handle_client_disconnect_def Let_def
  Player_init_def welcome_message_def start_game_def spawn_coin_def Coin_init_def set_velocity_def
  game_loop_iteration_def winner_check_def simulate_def move_players_def update_position_def check_collisions_def collision_pass_def
  spawn_phase_def spawn_if_room_def truthy_def game_over_reset_def zero_score_def
  COLLISION_DISTANCE_25 in_range_iff consts_defs

lemma example_session_ok: "list_all event_ok example_session"
  by (simp add: example_session_def coin_draw_ok_def consts_defs)

lemma example_session_run: "run example_session (GameServer_init 0) = Inr example_final"
  by (simp add: example_session_def example_final_def example_alice_def example_bob_def eval_defs)

subsection \<open>Positions stay in the arena\<close>

lemma in_arena_bounds:
  "in_arena p \<longleftrightarrow> 15 \<le> p_x p \<and> p_x p \<le> 585 \<and> 15 \<le> p_y p \<and> p_y p \<le> 385"
  by (simp add: in_arena_def consts_defs)

lemma init_in_arena: "all_in_arena (GameServer_init t0)"
  by (simp add: all_in_arena_def GameServer_init_def)

text \<open>
  C4. In every state that a session reaches from the initial state, whatever the events
  (connections with their random start positions, disconnections, messages, ticks), every
  player's position has x in [15, 585] and y in [15, 385], that is within
  [halfSize, arenaDimension - halfSize] on both axes; and \<open>update_position\<close> puts any
  player, whatever its position and velocity, within these bounds.
\<close>

theorem position_within_arena:
  assumes "list_all event_ok es" and "run es (GameServer_init t0) = Inr s"
    and "(k, p) \<in> set (players s)"
  shows "15 \<le> p_x p \<and> p_x p \<le> 585 \<and> 15 \<le> p_y p \<and> p_y p \<le> 385 \<and>
         15 \<le> p_x (update_position q) \<and> p_x (update_position q) \<le> 585 \<and>
         15 \<le> p_y (update_position q) \<and> p_y (update_position q) \<le> 385"
proof -
  have "all_in_arena s"
    using step_in_arena init_in_arena assms(1,2) by (rule run_invariant)
  then have "in_arena p" using assms(3) by (auto simp: all_in_arena_def list_all_iff)
  moreover have "in_arena (update_position q)" by (rule update_position_in_arena)
  ultimately show ?thesis by (simp add: in_arena_bounds)
qed

theorem position_within_arena_witness:
  "list_all event_ok example_session \<and>
   run example_session (GameServer_init 0) = Inr example_final \<and>
   (''1'', example_alice) \<in> set (players example_final) \<and>
   15 \<le> p_x example_alice \<and> p_x example_alice \<le> 585 \<and>
   15 \<le> p_y example_alice \<and> p_y example_alice \<le> 385 \<and>
   p_x (update_position example_alice) = 40 \<and> p_y (update_position example_alice) = 380"
proof -
  have m: "(''1'', example_alice) \<in> set (players example_final)"
    by (simp add: example_final_def)
  have u: "p_x (update_position example_alice) = 40 \<and> p_y (update_position example_alice) = 380"
    by (simp add: example_alice_def update_position_def Let_def consts_defs)
  show ?thesis
    using position_within_arena [OF example_session_ok example_session_run m, of example_alice] m u
      example_session_ok example_session_run
    by simp
qed

subsection \<open>The game-over reset\<close>

lemma game_over_reset_players:
  "i < length (players s) \<Longrightarrow>
   fst (players (game_over_reset s) ! i) = fst (players s ! i) \<and>
   snd (players (game_over_reset s) ! i) = (snd (players s ! i))\<lparr>p_score := 0\<rparr>"
  by (simp add: game_over_reset_def zero_score_def split: prod.splits)

text \<open>
  C10. When an iteration of the game loop finds a winner set, it ends with the game-over
  reset of the state it has computed: the started flag becomes false, the winner None,
  the coin set empty and every player's score 0, while the game mode, the next-coin-id
  counter (and the spawn timer and player counter), the number and order of the players
  and every player's id, name, colour, position and velocity are unchanged.
\<close>

theorem game_over_reset_frame:
  assumes "game_started s" and "truthy (winner (simulate t draws s))"
    and "game_loop_iteration t draws s = Inr s'"
  shows "s' = game_over_reset (simulate t draws s) \<and>
         game_started s' = False \<and> winner s' = None \<and> coins s' = [] \<and>
         game_mode s' = game_mode (simulate t draws s) \<and>
         next_coin_id s' = next_coin_id (simulate t draws s) \<and>
         last_coin_spawn s' = last_coin_spawn (simulate t draws s) \<and>
         player_count s' = player_count (simulate t draws s) \<and>
         length (players s') = length (players (simulate t draws s)) \<and>
         (\<forall>i < length (players s').
            fst (players s' ! i) = fst (players (simulate t draws s) ! i) \<and>
            snd (players s' ! i) = (snd (players (simulate t draws s) ! i))\<lparr>p_score := 0\<rparr> \<and>
            p_score (snd (players s' ! i)) = 0 \<and>
            p_id (snd (players s' ! i)) = p_id (snd (players (simulate t draws s) ! i)) \<and>
            p_name (snd (players s' ! i)) = p_name (snd (players (simulate t draws s) ! i)) \<and>
            p_color (snd (players s' ! i)) = p_color (snd (players (simulate t draws s) ! i)) \<and>
            p_x (snd (players s' ! i)) = p_x (snd (players (simulate t draws s) ! i)) \<and>
            p_y (snd (players s' ! i)) = p_y (snd (players (simulate t draws s) ! i)) \<and>
            velocity_x (snd (players s' ! i)) = velocity_x (snd (players (simulate t draws s) ! i)) \<and>
            velocity_y (snd (players s' ! i)) = velocity_y (snd (players (simulate t draws s) ! i)))"
proof -
  let ?pre = "simulate t draws s"
  have r: "s' = game_over_reset ?pre"
    using assms by (auto simp: game_loop_iteration_def winner_check_def split: option.splits)
  have f: "game_started (game_over_reset ?pre) = False \<and> winner (game_over_reset ?pre) = None \<and>
           coins (game_over_reset ?pre) = [] \<and>
           game_mode (game_over_reset ?pre) = game_mode ?pre \<and>
           next_coin_id (game_over_reset ?pre) = next_coin_id ?pre \<and>
           last_coin_spawn (game_over_reset ?pre) = last_coin_spawn ?pre \<and>
           player_count (game_over_reset ?pre) = player_count ?pre \<and>
           length (players (game_over_reset ?pre)) = length (players ?pre)"
    by (simp add: game_over_reset_def)
  have p: "\<forall>i < length (players (game_over_reset ?pre)).
            fst (players (game_over_reset ?pre) ! i) = fst (players ?pre ! i) \<and>
            snd (players (game_over_reset ?pre) ! i) = (snd (players ?pre ! i))\<lparr>p_score := 0\<rparr>"
    using game_over_reset_players [of _ ?pre] f by simp
  show ?thesis unfolding r using f p by simp
qed

lemma match_point_simulate:
  "simulate 1 [(50, 50)] example_match_point =
     example_match_point
       \<lparr>players := [(''1'', (example_nine ''1'' ''Alice'' 100)\<lparr>p_score := 10\<rparr>),
                    (''2'', (example_nine ''2'' ''Bob'' 300)\<lparr>p_score := 10\<rparr>)],
        winner := Some ''2'', coins := []\<rparr>"
  by (simp add: example_match_point_def example_nine_def eval_defs)

theorem game_over_reset_frame_witness:
  "game_started example_match_point \<and>
   truthy (winner (simulate 1 [(50, 50)] example_match_point)) \<and>
   game_loop_iteration 1 [(50, 50)] example_match_point = Inr example_after_reset \<and>
   example_after_reset = game_over_reset (simulate 1 [(50, 50)] example_match_point) \<and>
   game_mode example_after_reset = ''sprint'' \<and> next_coin_id example_after_reset = 2 \<and>
   length (players example_after_reset) = 2 \<and>
   p_x (snd (players example_after_reset ! 1)) = 300 \<and>
   p_score (snd (players example_after_reset ! 1)) = 0"
proof -
  have a: "game_started example_match_point" by (simp add: example_match_point_def)
  have b: "truthy (winner (simulate 1 [(50, 50)] example_match_point))"
    by (simp add: match_point_simulate truthy_def)
  have c: "game_loop_iteration 1 [(50, 50)] example_match_point = Inr example_after_reset"
    unfolding game_loop_iteration_def match_point_simulate
    by (simp add: example_match_point_def example_after_reset_def example_nine_def
          winner_check_def truthy_def game_over_reset_def zero_score_def)
  have d: "game_mode example_after_reset = ''sprint'' \<and> next_coin_id example_after_reset = 2 \<and>
           length (players example_after_reset) = 2 \<and>
           p_x (snd (players example_after_reset ! 1)) = 300 \<and>
           p_score (snd (players example_after_reset ! 1)) = 0"
    by (simp add: example_after_reset_def example_nine_def)
  show ?thesis using game_over_reset_frame [OF a b c] a b c d by simp
qed


subsection \<open>Connections\<close>

lemma length_update_fresh: "k \<notin> fst ` set al \<Longrightarrow> length (AList.update k v al) = Suc (length al)"
  by (induction al) auto

text \<open>
  C2, as it holds of the code. The session does not bound the number of players: a connection whose id
  is not among the current players is always accepted and adds one player, whatever the
  number of players already connected; the new player is named Alice for a player
  counter of 0 and Bob otherwise.
\<close>

theorem connection_always_accepted:
  assumes "player_id \<notin> fst ` set (players s)"
  shows "length (players (fst (handle_client_connect player_id rx ry rc s))) = length (players s) + 1 \<and>
         map_of (players (fst (handle_client_connect player_id rx ry rc s))) player_id =
           Some (Player_init player_id (if player_count s = 0 then ''Alice'' else ''Bob'')
                   (if player_count s = 0 then [255, 100, 100] else [100, 100, 255]) rx ry rc)"
  using assms by (simp add: handle_client_connect_def Let_def length_update_fresh update_conv')

theorem connection_always_accepted_witness:
  "''3'' \<notin> fst ` set (players example_lobby) \<and> length (players example_lobby) = 2 \<and>
   length (players (fst (handle_client_connect ''3'' 300 200 0 example_lobby))) = 3 \<and>
   p_name (the (map_of (players (fst (handle_client_connect ''3'' 300 200 0 example_lobby))) ''3''))
     = ''Bob''"
proof -
  have v: "players example_lobby =
             [(''1'', Player_init ''1'' ''Alice'' [255, 100, 100] 30 370 0),
              (''2'', Player_init ''2'' ''Bob'' [100, 100, 255] 570 30 0)]"
          "player_count example_lobby = 2"
    by (simp_all add: example_lobby_def GameServer_init_def handle_client_connect_def Let_def)
  have h: "''3'' \<notin> fst ` set (players example_lobby)" by (simp add: v)
  show ?thesis using connection_always_accepted [OF h, of 300 200 0] h
    by (simp add: v Player_init_def)
qed

text \<open>
  Three connections in a row from the initial state: the third is accepted and the
  session holds three players.
\<close>

theorem third_connection_counterexample:
  "list_all event_ok example_three_connects \<and>
   map fst (players (projr (run example_three_connects (GameServer_init 0)))) = [''1'', ''2'', ''3''] \<and>
   length (players (projr (run example_three_connects (GameServer_init 0)))) = 3"
  by (simp add: example_three_connects_def eval_defs)

text \<open>
  C8. The welcome message sent on a connection has exactly the keys \<open>type\<close>,
  \<open>player_id\<close> and \<open>player_data\<close>: it carries the assigned player id and the snapshot
  (\<open>to_dict\<close>) of the new player, and no \<open>simulated_latency\<close> entry, so that the client
  falls back on its default of 200.
\<close>

theorem welcome_without_latency:
  "map fst (snd (handle_client_connect player_id rx ry rc s)) = [''type'', ''player_id'', ''player_data''] \<and>
   map_of (snd (handle_client_connect player_id rx ry rc s)) ''simulated_latency'' = None \<and>
   client_simulated_latency (snd (handle_client_connect player_id rx ry rc s)) = JInt 200 \<and>
   map_of (snd (handle_client_connect player_id rx ry rc s)) ''player_id'' = Some (JStr player_id) \<and>
   map_of (snd (handle_client_connect player_id rx ry rc s)) ''player_data'' =
     Some (to_dict (the (map_of (players (fst (handle_client_connect player_id rx ry rc s))) player_id)))"
  by (simp add: handle_client_connect_def Let_def welcome_message_def client_simulated_latency_def
        update_conv')

subsection \<open>Coin ids\<close>

lemma coins_from_refl: "coins_from s s"
  by (auto simp: coins_from_def list_all_iff)

lemma coins_from_trans:
  assumes "coins_from s s'" and "coins_from s' s''"
  shows "coins_from s s''"
proof -
  have n1: "next_coin_id s \<le> next_coin_id s'" and n2: "next_coin_id s' \<le> next_coin_id s''"
    using assms by (simp_all add: coins_from_def)
  have "fst kc \<in> fst ` set (coins s) \<or> (next_coin_id s \<le> fst kc \<and> fst kc < next_coin_id s'')"
    if kc: "kc \<in> set (coins s'')" for kc
  proof -
    from assms(2) kc have "fst kc \<in> fst ` set (coins s') \<or>
        (next_coin_id s' \<le> fst kc \<and> fst kc < next_coin_id s'')"
      by (simp add: coins_from_def list_all_iff)
    then show ?thesis
    proof
      assume "fst kc \<in> fst ` set (coins s')"
      then obtain kc' where k': "kc' \<in> set (coins s')" and e: "fst kc' = fst kc" by force
      from assms(1) k' have "fst kc' \<in> fst ` set (coins s) \<or>
          (next_coin_id s \<le> fst kc' \<and> fst kc' < next_coin_id s')"
        by (simp add: coins_from_def list_all_iff)
      then show ?thesis using e n2 by auto
    next
      assume "next_coin_id s' \<le> fst kc \<and> fst kc < next_coin_id s''"
      then show ?thesis using n1 by auto
    qed
  qed
  then show ?thesis using n1 n2 by (simp add: coins_from_def list_all_iff)
qed

lemma coins_from_subset:
  "next_coin_id s' = next_coin_id s \<Longrightarrow> set (coins s') \<subseteq> set (coins s) \<Longrightarrow> coins_from s s'"
  by (auto simp: coins_from_def list_all_iff)

lemma coins_from_spawn_coin: "coins_from s (spawn_coin r s)"
  using set_update_subset [of "next_coin_id s" "Coin_init (next_coin_id s) r" "coins s"]
  by (auto simp: coins_from_def list_all_iff spawn_coin_def)

lemma coins_from_fold_spawn_coin: "coins_from s (fold spawn_coin draws s)"
proof (induction draws arbitrary: s)
  case Nil
  show ?case by (simp add: coins_from_refl)
next
  case (Cons r draws)
  have "coins_from s (spawn_coin r s)" by (rule coins_from_spawn_coin)
  moreover have "coins_from (spawn_coin r s) (fold spawn_coin draws (spawn_coin r s))" by (rule Cons.IH)
  ultimately show ?case using coins_from_trans by simp
qed

lemma coins_from_spawn_if_room: "coins_from s (spawn_if_room r s)"
  by (simp add: spawn_if_room_def coins_from_refl coins_from_spawn_coin)

lemma coins_from_fold_spawn_if_room: "coins_from s (fold spawn_if_room draws s)"
proof (induction draws arbitrary: s)
  case Nil
  show ?case by (simp add: coins_from_refl)
next
  case (Cons r draws)
  have "coins_from s (spawn_if_room r s)" by (rule coins_from_spawn_if_room)
  moreover have "coins_from (spawn_if_room r s) (fold spawn_if_room draws (spawn_if_room r s))"
    by (rule Cons.IH)
  ultimately show ?case using coins_from_trans by simp
qed

lemma coins_from_spawn_phase: "coins_from s (spawn_phase t draws s)"
proof -
  have "coins_from s (if int (length (coins s)) < MAX_COINS then fold spawn_if_room draws s else s)"
    by (simp add: coins_from_refl coins_from_fold_spawn_if_room)
  moreover have "coins_from x (x\<lparr>last_coin_spawn := t\<rparr>)" for x
    by (rule coins_from_subset) simp_all
  ultimately show ?thesis unfolding spawn_phase_def using coins_from_trans coins_from_refl
    by (metis (full_types))
qed

lemma coins_from_check_collisions: "coins_from s (check_collisions s)"
  by (rule coins_from_subset)
     (auto simp: check_collisions_def remove_coins_filter split: prod.splits)

lemma coins_from_game_over_reset: "coins_from s (game_over_reset s)"
  by (rule coins_from_subset) (simp_all add: game_over_reset_def)

lemma coins_from_move_players: "coins_from s (move_players s)"
  by (rule coins_from_subset) (simp_all add: move_players_def)

lemma coins_from_simulate: "coins_from s (simulate t draws s)"
proof -
  have a: "coins_from s (move_players s)" by (rule coins_from_move_players)
  have b: "coins_from (move_players s) (check_collisions (move_players s))"
    by (rule coins_from_check_collisions)
  have c: "coins_from (check_collisions (move_players s))
             (spawn_phase t draws (check_collisions (move_players s)))"
    by (rule coins_from_spawn_phase)
  show ?thesis unfolding simulate_def by (rule coins_from_trans [OF coins_from_trans [OF a b] c])
qed

lemma coins_from_winner_check: "winner_check s = Inr s' \<Longrightarrow> coins_from s s'"
  by (auto simp: winner_check_def coins_from_refl coins_from_game_over_reset
           split: if_splits option.splits)

lemma coins_from_step: "step e s = Inr s' \<Longrightarrow> coins_from s s'"
proof (cases e)
  case (Connect player_id rx ry rc)
  assume "step e s = Inr s'"
  then have "s' = fst (handle_client_connect player_id rx ry rc s)" using Connect by simp
  then show ?thesis by (intro coins_from_subset) (simp_all add: handle_client_connect_def Let_def)
next
  case (Disconnect player_id)
  assume "step e s = Inr s'"
  then have "s' = handle_client_disconnect player_id s" using Disconnect by simp
  then show ?thesis by (intro coins_from_subset) (simp_all add: handle_client_disconnect_def)
next
  case (Message player_id m draws)
  assume st: "step e s = Inr s'"
  show ?thesis
  proof (cases m)
    case (Input dx dy)
    then have "s' = handle_message player_id (Input dx dy) draws s" using st Message by simp
    then show ?thesis by (intro coins_from_subset) simp_all
  next
    case (StartGame mode)
    let ?s0 = "s\<lparr>game_mode := (case mode of None \<Rightarrow> ''endless'' | Some m \<Rightarrow> m),
                 game_started := True, winner := None\<rparr>"
    have a: "coins_from s ?s0" by (rule coins_from_subset) simp_all
    have b: "coins_from ?s0 (fold spawn_coin draws ?s0)" by (rule coins_from_fold_spawn_coin)
    have "s' = s \<or> s' = fold spawn_coin draws ?s0"
      using st Message StartGame by (auto simp: start_game_def split: if_splits)
    then show ?thesis using coins_from_trans [OF a b] coins_from_refl by auto
  next
    case Other
    then show ?thesis using st Message by (simp add: coins_from_refl)
  qed
next
  case (Tick t draws)
  assume st: "step e s = Inr s'"
  show ?thesis
  proof (cases "game_started s")
    case False
    then show ?thesis using st Tick by (simp add: game_loop_iteration_def coins_from_refl)
  next
    case True
    then have "winner_check (simulate t draws s) = Inr s'"
      using st Tick by (simp add: game_loop_iteration_def)
    then have "coins_from (simulate t draws s) s'" by (rule coins_from_winner_check)
    with coins_from_simulate show ?thesis by (rule coins_from_trans)
  qed
qed

lemma coins_from_run: "run es s = Inr s' \<Longrightarrow> coins_from s s'"
proof (induction es arbitrary: s)
  case Nil
  then show ?case by (simp add: coins_from_refl)
next
  case (Cons e es)
  then obtain s1 where a: "step e s = Inr s1" and b: "run es s1 = Inr s'"
    by (auto split: sum.splits)
  show ?case using coins_from_step [OF a] Cons.IH [OF b] by (rule coins_from_trans)
qed

text \<open>
  C5. A coin is spawned under the current value of the next-coin-id counter, which is
  then incremented; no operation (the game-over reset included) decreases the counter.
  So when an event adds a coin id \<open>a\<close> to the coin set and, after any further events,
  a later event adds a coin id \<open>b\<close>, then \<open>a < b\<close>: the ids of successively spawned
  coins strictly increase and an id is never used again, whether or not the first coin
  has been removed in between and also across a game-over reset.
\<close>

theorem coin_ids_never_reused:
  assumes "step e1 s1 = Inr s2" and "run es s2 = Inr s3" and "step e2 s3 = Inr s4"
    and "a \<in> fst ` set (coins s2)" and "a \<notin> fst ` set (coins s1)"
    and "b \<in> fst ` set (coins s4)" and "b \<notin> fst ` set (coins s3)"
  shows "a < b \<and>
         map_of (coins (spawn_coin r s)) (next_coin_id s) = Some (Coin_init (next_coin_id s) r) \<and>
         next_coin_id (spawn_coin r s) = next_coin_id s + 1 \<and>
         next_coin_id (game_over_reset s) = next_coin_id s \<and>
         next_coin_id s1 \<le> next_coin_id s4"
proof -
  have c12: "coins_from s1 s2" using assms(1) by (rule coins_from_step)
  have c23: "coins_from s2 s3" using assms(2) by (rule coins_from_run)
  have c34: "coins_from s3 s4" using assms(3) by (rule coins_from_step)
  have "a < next_coin_id s2" using c12 assms(4,5) by (auto simp: coins_from_def list_all_iff)
  moreover have "next_coin_id s2 \<le> next_coin_id s3" using c23 by (simp add: coins_from_def)
  moreover have "next_coin_id s3 \<le> b" using c34 assms(6,7) by (auto simp: coins_from_def list_all_iff)
  ultimately have ab: "a < b" by linarith
  have "coins_from s1 s4" using coins_from_trans [OF coins_from_trans [OF c12 c23] c34] .
  then have m: "next_coin_id s1 \<le> next_coin_id s4" by (simp add: coins_from_def)
  have sp: "map_of (coins (spawn_coin r s)) (next_coin_id s) = Some (Coin_init (next_coin_id s) r) \<and>
            next_coin_id (spawn_coin r s) = next_coin_id s + 1"
    by (simp add: spawn_coin_def update_conv')
  have rs: "next_coin_id (game_over_reset s) = next_coin_id s" by (simp add: game_over_reset_def)
  show ?thesis using ab m sp rs by simp
qed

theorem coin_ids_never_reused_witness:
  "step (Tick 3 [(50, 50)]) example_before_win = Inr example_spawned \<and>
   run example_win_events example_spawned = Inr example_won_reset \<and>
   step example_restart example_won_reset = Inr example_restarted \<and>
   2 \<in> fst ` set (coins example_spawned) \<and> 2 \<notin> fst ` set (coins example_before_win) \<and>
   3 \<in> fst ` set (coins example_restarted) \<and> 3 \<notin> fst ` set (coins example_won_reset) \<and>
   coins example_won_reset = [] \<and> (2 :: int) < 3 \<and>
   next_coin_id example_before_win \<le> next_coin_id example_restarted"
proof -
  have h1: "step (Tick 3 [(50, 50)]) example_before_win = Inr example_spawned"
    by (simp add: example_before_win_def example_spawned_def eval_defs)
  have h2: "run example_win_events example_spawned = Inr example_won_reset"
    by (simp add: example_win_events_def example_spawned_def example_won_reset_def eval_defs)
  have h3: "step example_restart example_won_reset = Inr example_restarted"
    by (simp add: example_restart_def example_won_reset_def example_restarted_def eval_defs)
  have h4: "2 \<in> fst ` set (coins example_spawned)" by (simp add: example_spawned_def)
  have h5: "2 \<notin> fst ` set (coins example_before_win)" by (simp add: example_before_win_def)
  have h6: "3 \<in> fst ` set (coins example_restarted)" by (simp add: example_restarted_def)
  have h7: "3 \<notin> fst ` set (coins example_won_reset)" by (simp add: example_won_reset_def)
  have e: "coins example_won_reset = []" by (simp add: example_won_reset_def)
  show ?thesis
    using coin_ids_never_reused [OF h1 h2 h3 h4 h5 h6 h7] h1 h2 h3 h4 h5 h6 h7 e by simp
qed

subsection \<open>Starting a game\<close>

lemma coin_ids_below_spawn_coin:
  assumes "coin_ids_below s"
  shows "coin_ids_below (spawn_coin r s) \<and>
         length (coins (spawn_coin r s)) = length (coins s) + 1 \<and>
         next_coin_id (spawn_coin r s) = next_coin_id s + 1"
proof -
  have fresh: "next_coin_id s \<notin> fst ` set (coins s)"
    using assms by (auto simp: coin_ids_below_def list_all_iff)
  have "list_all (\<lambda>kc. fst kc < next_coin_id s + 1) (coins s)"
    using assms by (auto simp: coin_ids_below_def list_all_iff)
  then have "list_all (\<lambda>kc. fst kc < next_coin_id s + 1)
               (AList.update (next_coin_id s) (Coin_init (next_coin_id s) r) (coins s))"
    by (intro list_all_update) simp_all
  then show ?thesis using fresh
    by (simp add: coin_ids_below_def spawn_coin_def length_update_fresh)
qed

lemma coin_ids_below_fold_spawn_coin:
  "coin_ids_below s \<Longrightarrow>
   coin_ids_below (fold spawn_coin draws s) \<and>
   length (coins (fold spawn_coin draws s)) = length (coins s) + length draws \<and>
   next_coin_id (fold spawn_coin draws s) = next_coin_id s + int (length draws)"
proof (induction draws arbitrary: s)
  case Nil
  then show ?case by simp
next
  case (Cons r draws)
  have a: "coin_ids_below (spawn_coin r s) \<and>
         length (coins (spawn_coin r s)) = length (coins s) + 1 \<and>
         next_coin_id (spawn_coin r s) = next_coin_id s + 1"
    using Cons.prems by (rule coin_ids_below_spawn_coin)
  then show ?case using Cons.IH [of "spawn_coin r s"] by simp
qed

lemma fold_spawn_coin_frame:
  "players (fold spawn_coin draws s) = players s \<and>
   game_started (fold spawn_coin draws s) = game_started s \<and>
   game_mode (fold spawn_coin draws s) = game_mode s \<and>
   winner (fold spawn_coin draws s) = winner s \<and>
   last_coin_spawn (fold spawn_coin draws s) = last_coin_spawn s \<and>
   player_count (fold spawn_coin draws s) = player_count s"
  by (induction draws arbitrary: s) (simp_all add: spawn_coin_def)

lemma fold_spawn_if_room_frame:
  "game_started (fold spawn_if_room draws s) = game_started s \<and>
   game_mode (fold spawn_if_room draws s) = game_mode s \<and>
   winner (fold spawn_if_room draws s) = winner s"
  by (induction draws arbitrary: s) (simp_all add: spawn_if_room_def spawn_coin_def)

lemma simulate_frame:
  "game_started (simulate t draws s) = game_started s \<and>
   game_mode (simulate t draws s) = game_mode s"
  by (simp add: simulate_def spawn_phase_def fold_spawn_if_room_frame check_collisions_def
        move_players_def split: prod.splits)

lemma idle_no_coins_step:
  assumes "idle_no_coins s" "event_ok e" "step e s = Inr s'"
  shows "idle_no_coins s'"
proof (cases e)
  case (Connect player_id rx ry rc)
  then show ?thesis using assms by (auto simp: idle_no_coins_def handle_client_connect_def Let_def)
next
  case (Disconnect player_id)
  then show ?thesis using assms
    by (auto simp: idle_no_coins_def handle_client_disconnect_def split: if_splits)
next
  case (Message player_id m draws)
  show ?thesis
  proof (cases m)
    case (Input dx dy)
    then show ?thesis using assms Message by (auto simp: idle_no_coins_def)
  next
    case (StartGame mode)
    then show ?thesis using assms Message
      by (auto simp: idle_no_coins_def start_game_def fold_spawn_coin_frame split: if_splits)
  next
    case Other
    then show ?thesis using assms Message by simp
  qed
next
  case (Tick t draws)
  show ?thesis
  proof (cases "game_started s")
    case False
    then show ?thesis using assms Tick by (simp add: game_loop_iteration_def)
  next
    case True
    then have w: "winner_check (simulate t draws s) = Inr s'"
      using assms Tick by (simp add: game_loop_iteration_def)
    have "game_started (simulate t draws s)" using True by (simp add: simulate_frame)
    then show ?thesis using w
      by (auto simp: winner_check_def idle_no_coins_def game_over_reset_def
               split: if_splits option.splits)
  qed
qed

lemma idle_no_coins_init: "idle_no_coins (GameServer_init t0)"
  by (simp add: idle_no_coins_def GameServer_init_def)

text \<open>
  C7, as it holds of the code. In a state reached from the initial state, a \<open>start_game\<close> request is
  honoured exactly when the game is not started and at least 2 players are present,
  whatever mode string it carries (an absent mode is \<open>endless\<close>; the mode is stored as
  it is). When honoured it sets the started flag, clears the winner, stores the mode,
  keeps the players and their scores, and spawns as many coins as
  \<open>random.randint(3, 5)\<close> drew, so between 3 and 5, into the empty coin set. In every
  other state the request leaves the state unchanged.
\<close>

theorem start_game_request:
  assumes "list_all event_ok es" and "run es (GameServer_init t0) = Inr s"
    and "event_ok (Message player_id (StartGame mode) draws)"
  shows "(if \<not> game_started s \<and> 2 \<le> length (players s)
          then game_started (handle_message player_id (StartGame mode) draws s) \<and>
               winner (handle_message player_id (StartGame mode) draws s) = None \<and>
               game_mode (handle_message player_id (StartGame mode) draws s)
                 = (case mode of None \<Rightarrow> ''endless'' | Some m \<Rightarrow> m) \<and>
               players (handle_message player_id (StartGame mode) draws s) = players s \<and>
               length (coins (handle_message player_id (StartGame mode) draws s)) = length draws \<and>
               3 \<le> length (coins (handle_message player_id (StartGame mode) draws s)) \<and>
               length (coins (handle_message player_id (StartGame mode) draws s)) \<le> 5 \<and>
               next_coin_id (handle_message player_id (StartGame mode) draws s)
                 = next_coin_id s + int (length draws)
          else handle_message player_id (StartGame mode) draws s = s)"
proof (cases "\<not> game_started s \<and> 2 \<le> length (players s)")
  case False
  then show ?thesis by auto
next
  case True
  let ?m = "case mode of None \<Rightarrow> ''endless'' | Some m \<Rightarrow> m"
  let ?s0 = "s\<lparr>game_mode := ?m, game_started := True, winner := None\<rparr>"
  have "idle_no_coins s"
    using idle_no_coins_step idle_no_coins_init assms(1,2) by (rule run_invariant)
  then have e: "coins s = []" using True by (simp add: idle_no_coins_def)
  then have "coin_ids_below ?s0" by (simp add: coin_ids_below_def)
  then have f: "length (coins (fold spawn_coin draws ?s0)) = length (coins ?s0) + length draws \<and>
                next_coin_id (fold spawn_coin draws ?s0) = next_coin_id ?s0 + int (length draws)"
    using coin_ids_below_fold_spawn_coin by blast
  have h: "handle_message player_id (StartGame mode) draws s = fold spawn_coin draws ?s0"
    using True by (simp add: start_game_def)
  have n: "3 \<le> length draws \<and> length draws \<le> 5"
    using assms(3) by (simp add: consts_defs)
  show ?thesis using True unfolding h using f e n by (simp add: fold_spawn_coin_frame)
qed

theorem start_game_request_witness:
  "list_all event_ok example_start_events \<and>
   run example_start_events (GameServer_init 0) = Inr example_lobby \<and>
   event_ok (Message ''1'' (StartGame (Some ''sprint'')) example_draws) \<and>
   \<not> game_started example_lobby \<and> 2 \<le> length (players example_lobby) \<and>
   game_started (handle_message ''1'' (StartGame (Some ''sprint'')) example_draws example_lobby) \<and>
   game_mode (handle_message ''1'' (StartGame (Some ''sprint'')) example_draws example_lobby)
     = ''sprint'' \<and>
   length (coins (handle_message ''1'' (StartGame (Some ''sprint'')) example_draws example_lobby)) = 3"
proof -
  have h1: "list_all event_ok example_start_events"
    by (simp add: example_start_events_def consts_defs)
  have h2: "run example_start_events (GameServer_init 0) = Inr example_lobby"
    by (simp add: example_start_events_def example_lobby_def)
  have h3: "event_ok (Message ''1'' (StartGame (Some ''sprint'')) example_draws)"
    by (simp add: example_draws_def coin_draw_ok_def consts_defs)
  have c: "\<not> game_started example_lobby \<and> 2 \<le> length (players example_lobby)"
    by (simp add: example_lobby_def eval_defs)
  have l: "length example_draws = 3" by (simp add: example_draws_def)
  show ?thesis using start_game_request [OF h1 h2 h3] h1 h2 h3 c l by simp
qed

text \<open>
  With three players connected and the game not started, a \<open>start_game\<close> request is
  honoured; and with two players a request with the mode \<open>turbo\<close> is honoured and
  stores that mode.
\<close>

theorem start_game_counterexample:
  "length (players (projr (run example_three_connects (GameServer_init 0)))) = 3 \<and>
   \<not> game_started (projr (run example_three_connects (GameServer_init 0))) \<and>
   game_started (handle_message ''3'' (StartGame (Some ''sprint'')) example_draws
                   (projr (run example_three_connects (GameServer_init 0)))) \<and>
   length (coins (handle_message ''3'' (StartGame (Some ''sprint'')) example_draws
                   (projr (run example_three_connects (GameServer_init 0))))) = 3 \<and>
   game_mode (handle_message ''1'' (StartGame (Some ''turbo'')) example_draws example_lobby) = ''turbo''"
  by (simp add: example_three_connects_def example_lobby_def example_draws_def eval_defs)

subsection \<open>Setting the winner\<close>

lemma players_loop_winner_other_mode:
  "mode \<noteq> ''sprint'' \<Longrightarrow> acc_winner (snd (players_loop mode cid c ps acc)) = acc_winner acc"
  by (induction ps) (auto simp: Let_def split: prod.splits)

lemma coins_loop_winner_other_mode:
  "mode \<noteq> ''sprint'' \<Longrightarrow> acc_winner (snd (coins_loop mode cs ps acc)) = acc_winner acc"
proof (induction cs arbitrary: ps acc)
  case Nil
  show ?case by simp
next
  case (Cons a cs)
  obtain cid c where a: "a = (cid, c)" by (cases a)
  obtain ps' acc' where pl: "players_loop mode cid c ps acc = (ps', acc')"
    by (cases "players_loop mode cid c ps acc")
  have "acc_winner acc' = acc_winner acc"
    using players_loop_winner_other_mode [OF Cons.prems, of cid c ps acc] pl by simp
  then show ?case using Cons.IH [OF Cons.prems, of ps' acc'] a pl by simp
qed

lemma check_collisions_frame:
  "game_mode (check_collisions s) = game_mode s \<and>
   game_started (check_collisions s) = game_started s \<and>
   next_coin_id (check_collisions s) = next_coin_id s \<and>
   last_coin_spawn (check_collisions s) = last_coin_spawn s \<and>
   player_count (check_collisions s) = player_count s"
  by (simp add: check_collisions_def split: prod.splits)

lemma check_collisions_other_mode:
  "game_mode s \<noteq> ''sprint'' \<Longrightarrow> winner (check_collisions s) = winner s"
proof -
  assume m: "game_mode s \<noteq> ''sprint''"
  have "winner (check_collisions s) = acc_winner (snd (collision_pass s))"
    by (simp add: check_collisions_def split: prod.splits)
  also have "\<dots> = winner s"
    unfolding collision_pass_def using coins_loop_winner_other_mode [OF m] by simp
  finally show ?thesis .
qed

lemma check_collisions_iter_other_mode:
  "game_mode s \<noteq> ''sprint'' \<Longrightarrow>
   winner ((check_collisions ^^ n) s) = winner s \<and> game_mode ((check_collisions ^^ n) s) = game_mode s"
  by (induction n) (simp_all add: check_collisions_other_mode check_collisions_frame)

lemma winner_spawn_phase: "winner (spawn_phase t draws s) = winner s"
  by (simp add: spawn_phase_def fold_spawn_if_room_frame)

lemma simulate_other_mode:
  "game_mode s \<noteq> ''sprint'' \<Longrightarrow> winner (simulate t draws s) = winner s"
proof -
  assume m: "game_mode s \<noteq> ''sprint''"
  have "game_mode (move_players s) \<noteq> ''sprint''" using m by (simp add: move_players_def)
  then have "winner (check_collisions (move_players s)) = winner (move_players s)"
    by (rule check_collisions_other_mode)
  then show ?thesis by (simp add: simulate_def winner_spawn_phase move_players_def)
qed

lemma winner_set_by_pass:
  assumes d: "distinct (map fst (players s))" and ch: "winner (check_collisions s) \<noteq> winner s"
  shows "game_mode s = ''sprint'' \<and>
         (\<exists>k p. winner (check_collisions s) = Some k \<and>
                map_of (players (check_collisions s)) k = Some p \<and> SPRINT_WIN_SCORE \<le> p_score p)"
proof -
  let ?L = "pass_log (coins s) (players s)"
  have sp: "game_mode s = ''sprint''"
    using ch check_collisions_other_mode by blast
  have w: "winner (check_collisions s) = last_reaching ?L (winner s)"
    using sp by (simp add: check_collisions_char [OF d])
  have pl: "players (check_collisions s) = add_pickups ?L (players s)"
    by (simp add: check_collisions_char [OF d])
  from ch w have "last_reaching ?L (winner s) \<noteq> winner s" by simp
  then obtain e where e: "e \<in> set ?L" and n: "10 \<le> snd (snd e)"
    and r: "last_reaching ?L (winner s) = Some (fst (snd e))"
    using last_reaching_changed by blast
  let ?k = "fst (snd e)"
  have k: "?k \<in> fst ` set (players s)" using e by (rule pass_log_keys)
  then obtain p where p: "map_of (players s) ?k = Some p"
    by (metis domD dom_map_of_conv_image_fst)
  have b: "snd (snd e) \<le> score_of (players s) ?k + pickups_of ?k ?L"
    using e by (rule pass_log_score_bound)
  have "map_of (players (check_collisions s)) ?k = Some (p\<lparr>p_score := p_score p + pickups_of ?k ?L\<rparr>)"
    unfolding pl by (simp add: map_of_add_pickups p)
  moreover have "SPRINT_WIN_SCORE \<le> p_score (p\<lparr>p_score := p_score p + pickups_of ?k ?L\<rparr>)"
    using b n p by (simp add: score_of_def SPRINT_WIN_SCORE_def)
  ultimately show ?thesis using sp w r by auto
qed

text \<open>
  C6. The winner is set only by the collision pass in sprint mode and only to a player
  whose score has reached the win threshold of 10. When the mode is not \<open>sprint\<close>,
  no number of collision passes and no loop iteration changes the winner, however high
  the scores. When a pass changes the winner, the mode is \<open>sprint\<close> and the new winner
  is a player whose score after the pass is at least 10. Connecting, disconnecting,
  messages, the position update and the spawn step leave the winner as it is or clear
  it.
\<close>

theorem winner_only_in_sprint:
  "(game_mode s \<noteq> ''sprint'' \<longrightarrow>
      winner ((check_collisions ^^ n) s) = winner s \<and> winner (simulate t draws s) = winner s) \<and>
   (distinct (map fst (players s)) \<and> winner (check_collisions s) \<noteq> winner s \<longrightarrow>
      game_mode s = ''sprint'' \<and>
      (\<exists>k p. winner (check_collisions s) = Some k \<and>
             map_of (players (check_collisions s)) k = Some p \<and> SPRINT_WIN_SCORE \<le> p_score p)) \<and>
   winner (fst (handle_client_connect player_id rx ry rc s)) = winner s \<and>
   winner (handle_client_disconnect player_id s) = winner s \<and>
   (winner (handle_message player_id m draws s) = winner s \<or>
    winner (handle_message player_id m draws s) = None) \<and>
   winner (move_players s) = winner s \<and>
   winner (spawn_phase t draws s) = winner s \<and>
   winner (game_over_reset s) = None"
proof -
  have a: "game_mode s \<noteq> ''sprint'' \<longrightarrow>
      winner ((check_collisions ^^ n) s) = winner s \<and> winner (simulate t draws s) = winner s"
    by (simp add: check_collisions_iter_other_mode simulate_other_mode)
  have b: "distinct (map fst (players s)) \<and> winner (check_collisions s) \<noteq> winner s \<longrightarrow>
      game_mode s = ''sprint'' \<and>
      (\<exists>k p. winner (check_collisions s) = Some k \<and>
             map_of (players (check_collisions s)) k = Some p \<and> SPRINT_WIN_SCORE \<le> p_score p)"
    using winner_set_by_pass by blast
  have c: "winner (fst (handle_client_connect player_id rx ry rc s)) = winner s \<and>
           winner (handle_client_disconnect player_id s) = winner s"
    by (simp add: handle_client_connect_def handle_client_disconnect_def Let_def)
  have d: "winner (handle_message player_id m draws s) = winner s \<or>
           winner (handle_message player_id m draws s) = None"
    by (cases m) (simp_all add: start_game_def fold_spawn_coin_frame)
  have e: "winner (move_players s) = winner s \<and> winner (spawn_phase t draws s) = winner s \<and>
           winner (game_over_reset s) = None"
    by (simp add: move_players_def winner_spawn_phase game_over_reset_def)
  from a b c d e show ?thesis by blast
qed

theorem winner_only_in_sprint_witness:
  "game_mode example_endless_point \<noteq> ''sprint'' \<and>
   winner ((check_collisions ^^ 1) example_endless_point) = winner example_endless_point \<and>
   winner (check_collisions example_endless_point) = None \<and>
   map (\<lambda>kp. p_score (snd kp)) (players (check_collisions example_endless_point)) = [10, 10] \<and>
   distinct (map fst (players example_match_point)) \<and>
   winner (check_collisions example_match_point) \<noteq> winner example_match_point \<and>
   game_mode example_match_point = ''sprint'' \<and>
   winner (check_collisions example_match_point) = Some ''2'' \<and>
   map (\<lambda>kp. p_score (snd kp)) (players (check_collisions example_match_point)) = [10, 10]"
proof -
  have e: "game_mode example_endless_point \<noteq> ''sprint''"
    by (simp add: example_endless_point_def)
  have ce: "winner (check_collisions example_endless_point) = None \<and> winner example_endless_point = None \<and>
            map (\<lambda>kp. p_score (snd kp)) (players (check_collisions example_endless_point)) = [10, 10]"
    by (simp add: example_endless_point_def example_match_point_def example_nine_def eval_defs)
  have d: "distinct (map fst (players example_match_point))"
    by (simp add: example_match_point_def)
  have cm: "winner (check_collisions example_match_point) = Some ''2'' \<and> winner example_match_point = None \<and>
            map (\<lambda>kp. p_score (snd kp)) (players (check_collisions example_match_point)) = [10, 10]"
    by (simp add: example_match_point_def example_nine_def eval_defs)
  show ?thesis
    using winner_only_in_sprint [of example_endless_point 1]
      winner_only_in_sprint [of example_match_point] e ce d cm
    by simp
qed

lemma last_reaching_snoc:
  "last_reaching (L @ [e]) w = (if 10 \<le> snd (snd e) then Some (fst (snd e)) else last_reaching L w)"
  by (cases e) (simp add: last_reaching_append)

lemma last_reaching_filter:
  "last_reaching L w =
     (if filter (\<lambda>e. SPRINT_WIN_SCORE \<le> snd (snd e)) L = [] then w
      else Some (fst (snd (last (filter (\<lambda>e. SPRINT_WIN_SCORE \<le> snd (snd e)) L)))))"
proof (induction L rule: rev_induct)
  case Nil
  show ?case by simp
next
  case (snoc e L)
  show ?case
  proof (cases "10 \<le> snd (snd e)")
    case True
    then show ?thesis by (simp add: last_reaching_snoc SPRINT_WIN_SCORE_def)
  next
    case False
    then show ?thesis using snoc by (simp add: last_reaching_snoc SPRINT_WIN_SCORE_def)
  qed
qed

text \<open>
  C1, as it holds of the code. In sprint mode the collision pass evaluates every coin, also after a
  winner has been set: the coins picked up are all the coins with a player in range.
  Each pickup that brings the player's score to the threshold or above sets the winner
  to that player, so the winner after the pass is the player of the last such pickup in
  the iteration order of the coins, and the winner is unchanged when there is no such
  pickup.
\<close>

theorem sprint_winner_is_last_reaching:
  assumes "distinct (map fst (players s))" and "game_mode s = ''sprint''"
  shows "winner (check_collisions s) =
           (if filter (\<lambda>e. SPRINT_WIN_SCORE \<le> snd (snd e)) (pickups (snd (collision_pass s))) = []
            then winner s
            else Some (fst (snd (last (filter (\<lambda>e. SPRINT_WIN_SCORE \<le> snd (snd e))
                                         (pickups (snd (collision_pass s)))))))) \<and>
         map fst (pickups (snd (collision_pass s)))
           = map fst (filter (\<lambda>kc. first_in_range (snd kc) (players s) \<noteq> None) (coins s)) \<and>
         players (check_collisions s)
           = add_pickups (pickups (snd (collision_pass s))) (players s) \<and>
         coins (check_collisions s)
           = filter (\<lambda>kc. fst kc \<notin> set (map fst (pickups (snd (collision_pass s))))) (coins s)"
proof -
  let ?L = "pass_log (coins s) (players s)"
  have p: "pickups (snd (collision_pass s)) = ?L"
    by (simp add: collision_pass_char [OF assms(1)])
  have w: "winner (check_collisions s) = last_reaching ?L (winner s)"
    using assms(2) by (simp add: check_collisions_char [OF assms(1)])
  have k: "map fst ?L = map fst (filter (\<lambda>kc. first_in_range (snd kc) (players s) \<noteq> None) (coins s))"
    by (rule map_fst_pass_log)
  have c: "coins (check_collisions s) = filter (\<lambda>kc. fst kc \<notin> set (map fst ?L)) (coins s) \<and>
           players (check_collisions s) = add_pickups ?L (players s)"
    by (simp add: check_collisions_char [OF assms(1)])
  have l: "last_reaching ?L (winner s) =
     (if filter (\<lambda>e. SPRINT_WIN_SCORE \<le> snd (snd e)) ?L = [] then winner s
      else Some (fst (snd (last (filter (\<lambda>e. SPRINT_WIN_SCORE \<le> snd (snd e)) ?L)))))"
    by (rule last_reaching_filter)
  show ?thesis unfolding p using w k c l by simp
qed

theorem sprint_winner_is_last_reaching_witness:
  "distinct (map fst (players example_match_point)) \<and> game_mode example_match_point = ''sprint'' \<and>
   pickups (snd (collision_pass example_match_point)) = [(0, ''1'', 10), (1, ''2'', 10)] \<and>
   winner (check_collisions example_match_point) = Some (fst (snd (last [(0 :: int, ''1'', 10 :: int), (1, ''2'', 10)])))"
proof -
  have d: "distinct (map fst (players example_match_point))"
    by (simp add: example_match_point_def)
  have m: "game_mode example_match_point = ''sprint''"
    by (simp add: example_match_point_def)
  have p: "pickups (snd (collision_pass example_match_point)) = [(0, ''1'', 10), (1, ''2'', 10)]"
    by (simp add: example_match_point_def example_nine_def eval_defs)
  show ?thesis using sprint_winner_is_last_reaching [OF d m] d m
    by (simp add: p SPRINT_WIN_SCORE_def)
qed

text \<open>
  Two players with score 9, each on a coin: the first pickup brings player 1 to the
  threshold, the pass goes on to the second coin, and the winner it leaves is player 2.
\<close>

theorem first_to_threshold_counterexample:
  "game_mode example_match_point = ''sprint'' \<and> winner example_match_point = None \<and>
   map fst (players example_match_point) = [''1'', ''2''] \<and>
   pickups (snd (collision_pass example_match_point)) = [(0, ''1'', 10), (1, ''2'', 10)] \<and>
   winner (check_collisions example_match_point) = Some ''2'' \<and>
   winner (check_collisions example_match_point) \<noteq> Some ''1'' \<and>
   coins (check_collisions example_match_point) = []"
  by (simp add: example_match_point_def example_nine_def eval_defs)

subsection \<open>The pickups of a collision pass\<close>






text \<open>
  The collision pass runs on states whose two dictionaries have distinct keys and whose
  coin ids are below the counter: every state a session reaches is of this kind, also
  after the position update that precedes the pass.
\<close>

lemma map_fst_map_entry: "map fst (AList.map_entry k f al) = map fst al"
  by (induction al) auto

lemma map_fst_map_value: "map fst (map (\<lambda>(k, p). (k, f p)) ps) = map fst ps"
  by (induction ps) auto

lemma map_fst_unscored: "map fst (unscored ps) = map fst ps"
  by (induction ps) (auto simp: unscored_def)

lemma check_collisions_keys: "map fst (players (check_collisions s)) = map fst (players s)"
proof -
  have "unscored (players (check_collisions s)) = unscored (players s)"
    by (simp add: players_check_collisions collision_pass_def coins_loop_unscored)
  then show ?thesis by (metis map_fst_unscored)
qed

lemma well_formed_init: "well_formed (GameServer_init t0)"
  by (simp add: well_formed_def coin_ids_below_def GameServer_init_def)

lemma well_formed_spawn_coin: "well_formed s \<Longrightarrow> well_formed (spawn_coin r s)"
proof -
  assume w: "well_formed s"
  then have "coin_ids_below (spawn_coin r s)"
    using coin_ids_below_spawn_coin by (simp add: well_formed_def)
  moreover have "distinct (map fst (coins (spawn_coin r s)))"
    using w by (simp add: well_formed_def spawn_coin_def distinct_update)
  moreover have "players (spawn_coin r s) = players s" by (simp add: spawn_coin_def)
  ultimately show ?thesis using w by (simp add: well_formed_def)
qed

lemma well_formed_fold_spawn_coin: "well_formed s \<Longrightarrow> well_formed (fold spawn_coin draws s)"
  by (induction draws arbitrary: s) (simp_all add: well_formed_spawn_coin)

lemma well_formed_fold_spawn_if_room: "well_formed s \<Longrightarrow> well_formed (fold spawn_if_room draws s)"
  by (induction draws arbitrary: s) (simp_all add: well_formed_spawn_coin spawn_if_room_def)

lemma well_formed_spawn_phase: "well_formed s \<Longrightarrow> well_formed (spawn_phase t draws s)"
proof -
  assume w: "well_formed s"
  have a: "well_formed x \<Longrightarrow> well_formed (x\<lparr>last_coin_spawn := t\<rparr>)" for x
    by (simp add: well_formed_def coin_ids_below_def)
  show ?thesis unfolding spawn_phase_def
    using w a well_formed_fold_spawn_if_room by simp
qed

lemma well_formed_move_players: "well_formed s \<Longrightarrow> well_formed (move_players s)"
proof -
  assume w: "well_formed s"
  have "map fst (players (move_players s)) = map fst (players s)"
    by (simp add: move_players_def map_fst_map_value del: map_map)
  moreover have "coins (move_players s) = coins s \<and> next_coin_id (move_players s) = next_coin_id s"
    by (simp add: move_players_def)
  ultimately show ?thesis using w by (simp add: well_formed_def coin_ids_below_def)
qed

lemma well_formed_check_collisions: "well_formed s \<Longrightarrow> well_formed (check_collisions s)"
proof -
  assume w: "well_formed s"
  then have d: "distinct (map fst (players s))" by (simp add: well_formed_def)
  have c: "coins (check_collisions s) =
        filter (\<lambda>kc. fst kc \<notin> set (map fst (pass_log (coins s) (players s)))) (coins s)"
    by (simp add: check_collisions_char [OF d])
  have "distinct (map fst (coins (check_collisions s)))"
    unfolding c using w by (simp add: well_formed_def distinct_map_filter)
  moreover have "coin_ids_below (check_collisions s)"
    using w unfolding coin_ids_below_def c
    by (auto simp: well_formed_def coin_ids_below_def check_collisions_frame list_all_iff)
  ultimately show ?thesis using d by (simp add: well_formed_def check_collisions_keys)
qed

lemma well_formed_game_over_reset: "well_formed s \<Longrightarrow> well_formed (game_over_reset s)"
proof -
  assume w: "well_formed s"
  have "map fst (players (game_over_reset s)) = map fst (players s)"
    by (simp add: game_over_reset_def map_fst_map_value del: map_map)
  moreover have "coins (game_over_reset s) = []" by (simp add: game_over_reset_def)
  ultimately show ?thesis using w by (simp add: well_formed_def coin_ids_below_def)
qed

lemma well_formed_step:
  assumes "well_formed s" "event_ok e" "step e s = Inr s'"
  shows "well_formed s'"
proof (cases e)
  case (Connect player_id rx ry rc)
  then show ?thesis using assms
    by (auto simp: well_formed_def coin_ids_below_def handle_client_connect_def Let_def distinct_update)
next
  case (Disconnect player_id)
  then show ?thesis using assms
    by (auto simp: well_formed_def coin_ids_below_def handle_client_disconnect_def distinct_delete
             split: if_splits)
next
  case (Message player_id m draws)
  show ?thesis
  proof (cases m)
    case (Input dx dy)
    then show ?thesis using assms Message
      by (auto simp: well_formed_def coin_ids_below_def map_fst_map_entry)
  next
    case (StartGame mode)
    let ?s0 = "s\<lparr>game_mode := (case mode of None \<Rightarrow> ''endless'' | Some m \<Rightarrow> m),
                 game_started := True, winner := None\<rparr>"
    have "well_formed ?s0" using assms(1) by (simp add: well_formed_def coin_ids_below_def)
    then have "well_formed (fold spawn_coin draws ?s0)" by (rule well_formed_fold_spawn_coin)
    then show ?thesis using assms Message StartGame
      by (auto simp: start_game_def split: if_splits)
  next
    case Other
    then show ?thesis using assms Message by simp
  qed
next
  case (Tick t draws)
  show ?thesis
  proof (cases "game_started s")
    case False
    then show ?thesis using assms Tick by (simp add: game_loop_iteration_def)
  next
    case True
    have "well_formed (simulate t draws s)"
      unfolding simulate_def
      by (intro well_formed_spawn_phase well_formed_check_collisions well_formed_move_players assms(1))
    then show ?thesis using True assms Tick
      by (auto simp: game_loop_iteration_def winner_check_def well_formed_game_over_reset
               split: if_splits option.splits)
  qed
qed

lemma reachable_well_formed:
  assumes "list_all event_ok es" and "run es (GameServer_init t0) = Inr s"
  shows "well_formed s \<and> well_formed (move_players s)"
proof -
  have "well_formed s"
    using well_formed_step well_formed_init assms by (rule run_invariant)
  then show ?thesis by (simp add: well_formed_move_players)
qed




end
